theory Spec2Isabelle
  imports Main "HOL-Library.Word" "HOL-Library.Sublist" "HOL-Library.AList"
begin

section \<open>JavaScript strings\<close>

text \<open>
  A JavaScript string is a sequence of UTF-16 code units; \<open>length\<close>, \<open>charAt\<close>,
  \<open>substring\<close>, \<open>slice\<close> and a regular expression without the \<open>u\<close> flag all count
  and match code units. String literals of the source are written \<open>js ''...''\<close>.
\<close>

type_synonym jsstring = "16 word list"

definition js :: "string \<Rightarrow> jsstring" where
  "js s = map (\<lambda>c. of_nat (of_char c)) s"

text \<open>The character class \<open>[A-Za-z0-9]\<close>.\<close>

definition isAlnum :: "16 word \<Rightarrow> bool" where
  "isAlnum c \<longleftrightarrow>
     (0x41 \<le> c \<and> c \<le> 0x5A) \<or> (0x61 \<le> c \<and> c \<le> 0x7A) \<or> (0x30 \<le> c \<and> c \<le> 0x39)"

text \<open>\<open>/[A-Za-z0-9]/.test(s)\<close>: the pattern is not anchored, so it asks for a matching
  code unit anywhere in \<open>s\<close>; on the empty string it is false.\<close>

definition test_alnum :: "jsstring \<Rightarrow> bool" where
  "test_alnum s = list_ex isAlnum s"

text \<open>\<open>s.charAt(i)\<close> is the empty string when \<open>i\<close> is out of range.\<close>

definition charAt :: "jsstring \<Rightarrow> int \<Rightarrow> jsstring" where
  "charAt s i = (if 0 \<le> i \<and> i < int (length s) then [s ! nat i] else [])"

text \<open>\<open>s.substring(a, b)\<close>: both indices are clamped to \<open>[0, length]\<close> and swapped when
  \<open>a > b\<close>; \<open>s.substring(a)\<close> is \<open>s.substring(a, s.length)\<close>.\<close>

definition clamp :: "jsstring \<Rightarrow> int \<Rightarrow> nat" where
  "clamp s i = (if i < 0 then 0 else min (nat i) (length s))"

definition substring :: "jsstring \<Rightarrow> int \<Rightarrow> int \<Rightarrow> jsstring" where
  "substring s a b =
     (let from = min (clamp s a) (clamp s b); to = max (clamp s a) (clamp s b)
      in take (to - from) (drop from s))"

definition substring_from :: "jsstring \<Rightarrow> int \<Rightarrow> jsstring" where
  "substring_from s a = substring s a (int (length s))"

text \<open>\<open>s.slice(a, b)\<close>: a negative index counts from the end; an empty range gives the
  empty string.\<close>

definition slice_index :: "jsstring \<Rightarrow> int \<Rightarrow> nat" where
  "slice_index s i =
     (if i < 0 then nat (max (int (length s) + i) 0) else min (nat i) (length s))"

definition slice :: "jsstring \<Rightarrow> int \<Rightarrow> int \<Rightarrow> jsstring" where
  "slice s a b = take (slice_index s b - slice_index s a) (drop (slice_index s a) s)"

text \<open>\<open>s.indexOf(c)\<close> for a one-unit search string: the first position, or \<open>-1\<close>.\<close>

fun indexOf :: "jsstring \<Rightarrow> 16 word \<Rightarrow> int" where
  "indexOf [] c = -1"
| "indexOf (x # xs) c =
     (if x = c then 0 else (let i = indexOf xs c in if i < 0 then -1 else i + 1))"

text \<open>\<open>s.replace(/\uHHHH/g, r)\<close> for a pattern that matches the single code unit \<open>u\<close>
  and a replacement \<open>r\<close> without \<open>$\<close>: every occurrence is replaced.\<close>

definition replaceAllUnit :: "16 word \<Rightarrow> jsstring \<Rightarrow> jsstring \<Rightarrow> jsstring" where
  "replaceAllUnit u r s = concat (map (\<lambda>c. if c = u then r else [c]) s)"


section \<open>Importer: name derivation\<close>

text \<open>
  \<open>cleanupName\<close> is the same in both importers (lines 77-88 and 301-312). Both tests read
  \<open>firstChar\<close> and \<open>lastChar\<close>, taken from the argument before \<open>n\<close> is reassigned.
\<close>

definition cleanupName :: "jsstring \<Rightarrow> jsstring" where
  "cleanupName name =
     (let n = name;
          firstChar = charAt n 0;
          lastChar = charAt n (int (length n) - 1);
          n = (if \<not> test_alnum firstChar then substring_from n 1 else n);
          n = (if \<not> test_alnum lastChar then slice n 0 (-1) else n)
      in n)"


section \<open>Importer: post-processing of the rendered text\<close>

text \<open>
  \<open>super.postProcessMD\<close> belongs to the imported framework class \<open>PageImporter\<close>; it is a
  parameter of the model. Variant 1 (lines 214-218):
\<close>

definition postProcessMD :: "(jsstring \<Rightarrow> jsstring) \<Rightarrow> jsstring \<Rightarrow> jsstring" where
  "postProcessMD super_postProcessMD md =
     (let ret = super_postProcessMD md;
          ret = replaceAllUnit 0xA0 [] ret
      in ret)"

text \<open>
  Variant 2 (lines 460-473) first runs a loop over \<open>i = 0, ..., 19\<close>. The template literal
  \<open>`${i}`\<close> is the decimal numeral of \<open>i\<close>:
\<close>

fun decimal :: "nat \<Rightarrow> jsstring" where
  "decimal n =
     (if n < 10 then [0x30 + of_nat n] else decimal (n div 10) @ [0x30 + of_nat (n mod 10)])"

definition hexDigit :: "16 word \<Rightarrow> nat option" where
  "hexDigit c =
     (if 0x30 \<le> c \<and> c \<le> 0x39 then Some (unat c - 0x30)
      else if 0x41 \<le> c \<and> c \<le> 0x46 then Some (unat c - 0x41 + 10)
      else if 0x61 \<le> c \<and> c \<le> 0x66 then Some (unat c - 0x61 + 10)
      else None)"

text \<open>\<open>parseInt(s, 16)\<close> reads the longest prefix of hexadecimal digits (the strings of
  the loop have no sign, blank or \<open>0x\<close> prefix); with no digit it is \<open>NaN\<close>, here \<open>None\<close>.\<close>

fun parseHexFrom :: "nat \<Rightarrow> jsstring \<Rightarrow> nat" where
  "parseHexFrom acc [] = acc"
| "parseHexFrom acc (c # cs) =
     (case hexDigit c of None \<Rightarrow> acc | Some d \<Rightarrow> parseHexFrom (16 * acc + d) cs)"

definition parseInt16 :: "jsstring \<Rightarrow> nat option" where
  "parseInt16 s =
     (case s of [] \<Rightarrow> None
      | c # cs \<Rightarrow> (case hexDigit c of None \<Rightarrow> None | Some d \<Rightarrow> Some (parseHexFrom 0 s)))"

text \<open>\<open>String.fromCodePoint(n)\<close>: one code unit below \<open>0x10000\<close>, a surrogate pair up to
  \<open>0x10FFFF\<close>, a \<open>RangeError\<close> (here \<open>None\<close>) beyond and for \<open>NaN\<close>.\<close>

definition fromCodePoint :: "nat option \<Rightarrow> jsstring option" where
  "fromCodePoint n =
     (case n of None \<Rightarrow> None
      | Some k \<Rightarrow>
          if k < 0x10000 then Some [of_nat k]
          else if k \<le> 0x10FFFF
            then Some [0xD800 + of_nat ((k - 0x10000) div 0x400),
                       0xDC00 + of_nat ((k - 0x10000) mod 0x400)]
          else None)"

text \<open>The pattern \<open>\uHHHH\<close> built by \<open>new RegExp(`\\u00${x}`, 'g')\<close> matches the code unit
  whose hexadecimal numeral is \<open>00\<close> followed by the two digits of \<open>x\<close>.\<close>

definition unicodeEscape :: "jsstring \<Rightarrow> 16 word option" where
  "unicodeEscape hhhh =
     (if length hhhh = 4 \<and> list_all (\<lambda>c. hexDigit c \<noteq> None) hhhh
      then Some (of_nat (parseHexFrom 0 hhhh)) else None)"

text \<open>
  One iteration of the loop. The replacement \<open>[c.length].map(() => ' ').join('')\<close> maps
  over an array of one element, the number \<open>c.length\<close>, so it is one space whatever that
  number is. The \<open>console.log\<close> line writes to the console only and is left out.
\<close>

definition sweepStep :: "jsstring \<Rightarrow> nat \<Rightarrow> jsstring option" where
  "sweepStep ret i =
     (let x = decimal i;
          x = (if i < 10 then js ''0'' @ decimal i else x)
      in case fromCodePoint (parseInt16 (js ''00'' @ x)) of
           None \<Rightarrow> None
         | Some c \<Rightarrow>
            (case unicodeEscape (js ''00'' @ x) of
               None \<Rightarrow> None
             | Some reg \<Rightarrow>
                 (let r = concat (map (\<lambda>_. js '' '') [length c])
                  in Some (replaceAllUnit reg r ret))))"

definition postProcessMD_v2 :: "(jsstring \<Rightarrow> jsstring) \<Rightarrow> jsstring \<Rightarrow> jsstring option" where
  "postProcessMD_v2 super_postProcessMD md =
     (let ret = super_postProcessMD md
      in case foldl (\<lambda>acc i. Option.bind acc (\<lambda>ret. sweepStep ret i)) (Some ret) [0..<20] of
           None \<Rightarrow> None
         | Some ret \<Rightarrow> Some (replaceAllUnit 0xA0 [] ret))"

text \<open>The code units the loop of variant 2 looks for: the decimal numerals \<open>00\<close> to \<open>19\<close>
  read as hexadecimal, that is U+0000 to U+0009 and U+0010 to U+0019.\<close>

definition sweptUnit :: "16 word \<Rightarrow> bool" where
  "sweptUnit c \<longleftrightarrow> c \<le> 0x09 \<or> (0x10 \<le> c \<and> c \<le> 0x19)"


section \<open>The document as a store of nodes\<close>

text \<open>
  The importers work on a DOM tree through references to its nodes and change it in
  place. The model keeps the nodes in a store: a reference is an index into it, an
  element has its tag name, its attributes, the declarations of its inline style, its
  parent and its children. A child is an element of the store, a text node, or the
  content that an assignment to \<open>innerHTML\<close> put there, kept as the assigned markup (the
  HTML parser is not part of the importers). \<open>document.createElement\<close> allocates at the
  end of the store, so the store also plays the part of the \<open>document\<close> argument that
  the source passes around for that purpose.
\<close>

type_synonym ref = nat

datatype item = Node ref | Markup jsstring | Text jsstring

record element =
  tagName :: jsstring
  attributes :: "(jsstring \<times> jsstring) list"
  style :: "(jsstring \<times> jsstring) list"
  parentNode :: "ref option"
  childNodes :: "item list"

type_synonym store = "element list"

definition createElement :: "jsstring \<Rightarrow> store \<Rightarrow> ref \<times> store" where
  "createElement tag h =
     (length h,
      h @ [\<lparr>tagName = tag, attributes = [], style = [], parentNode = None, childNodes = []\<rparr>])"

definition getAttribute :: "store \<Rightarrow> ref \<Rightarrow> jsstring \<Rightarrow> jsstring option" where
  "getAttribute h r name = map_of (attributes (h ! r)) name"

definition setAttribute :: "ref \<Rightarrow> jsstring \<Rightarrow> jsstring \<Rightarrow> store \<Rightarrow> store" where
  "setAttribute r name v h = h[r := (h ! r)\<lparr>attributes := AList.update name v (attributes (h ! r))\<rparr>]"

text \<open>
  \<open>tag.style[name]\<close> is the getter of the CSS object model of the DOM library. It gives
  the empty string for a property the inline style does not declare. For a declared
  property it gives the value as the library serialises it, which need not be the text
  of the \<open>style\<close> attribute: the CSSOM standard gives a URL back as \<open>url("...")\<close>, in
  double quotes however the author quoted it, and there are libraries that give it back
  without quotes. The \<open>style\<close> field of an element holds the declarations as authored;
  the serialisation of the library is the parameter \<open>serialize\<close>.
\<close>

definition style_get :: "(jsstring \<Rightarrow> jsstring) \<Rightarrow> store \<Rightarrow> ref \<Rightarrow> jsstring \<Rightarrow> jsstring" where
  "style_get serialize h r name =
     (case map_of (style (h ! r)) name of None \<Rightarrow> [] | Some v \<Rightarrow> serialize v)"

text \<open>Taking a node out of its parent, the first step of every insertion of a node
  that is already in a tree.\<close>

definition remove_node :: "ref \<Rightarrow> store \<Rightarrow> store" where
  "remove_node c h =
     (case parentNode (h ! c) of
        None \<Rightarrow> h
      | Some p \<Rightarrow>
          (let h = h[p := (h ! p)\<lparr>childNodes := removeAll (Node c) (childNodes (h ! p))\<rparr>]
           in h[c := (h ! c)\<lparr>parentNode := None\<rparr>]))"

text \<open>
  \<open>parent.append(node)\<close> and \<open>parent.appendChild(node)\<close> for an element node: the node
  leaves its old parent and becomes the last child. The DOM refuses (with a
  \<open>HierarchyRequestError\<close>) to insert a node into itself or into one of its own
  descendants; the store does not model that refusal, and the properties below are
  stated for insertions of other nodes.
\<close>

definition node_append :: "ref \<Rightarrow> ref \<Rightarrow> store \<Rightarrow> store" where
  "node_append p c h =
     (let h = remove_node c h;
          h = h[p := (h ! p)\<lparr>childNodes := childNodes (h ! p) @ [Node c]\<rparr>]
      in h[c := (h ! c)\<lparr>parentNode := Some p\<rparr>])"

definition appendChild :: "ref \<Rightarrow> ref \<Rightarrow> store \<Rightarrow> store" where
  "appendChild p c h = node_append p c h"

text \<open>
  \<open>r.innerHTML = s\<close>: the children of \<open>r\<close> lose their parent and the content of \<open>r\<close>
  becomes what \<open>s\<close> parses to, nothing for the empty string. Assigning \<open>null\<close> assigns the
  empty string.
\<close>

fun orphan :: "store \<Rightarrow> item \<Rightarrow> store" where
  "orphan h (Node c) = h[c := (h ! c)\<lparr>parentNode := None\<rparr>]"
| "orphan h (Markup s) = h"
| "orphan h (Text s) = h"

definition markup :: "jsstring \<Rightarrow> item list" where
  "markup s = (if s = [] then [] else [Markup s])"

definition nullToEmpty :: "jsstring option \<Rightarrow> jsstring" where
  "nullToEmpty v = (case v of None \<Rightarrow> [] | Some s \<Rightarrow> s)"

definition set_innerHTML :: "ref \<Rightarrow> jsstring \<Rightarrow> store \<Rightarrow> store" where
  "set_innerHTML r s h =
     (let h = foldl orphan h (childNodes (h ! r))
      in h[r := (h ! r)\<lparr>childNodes := markup s\<rparr>])"

text \<open>
  \<open>this.replaceWith(node)\<close>: nothing happens when \<open>this\<close> has no parent; otherwise
  \<open>node\<close> leaves its old parent and takes the place of \<open>this\<close> among the children of the
  parent of \<open>this\<close>.
\<close>

definition replaceWith :: "ref \<Rightarrow> ref \<Rightarrow> store \<Rightarrow> store" where
  "replaceWith this node h =
     (case parentNode (h ! this) of
        None \<Rightarrow> h
      | Some p \<Rightarrow>
          if node = this then h
          else
            (let h = remove_node node h;
                 h = h[p := (h ! p)\<lparr>childNodes :=
                        map (\<lambda>x. if x = Node this then Node node else x) (childNodes (h ! p))\<rparr>];
                 h = h[node := (h ! node)\<lparr>parentNode := Some p\<rparr>]
             in h[this := (h ! this)\<lparr>parentNode := None\<rparr>]))"

text \<open>\<open>callout.classList.contains(c)\<close>: the \<open>class\<close> attribute is a list of tokens
  separated by ASCII whitespace.\<close>

definition isAsciiWhitespace :: "16 word \<Rightarrow> bool" where
  "isAsciiWhitespace c \<longleftrightarrow> c = 0x09 \<or> c = 0x0A \<or> c = 0x0C \<or> c = 0x0D \<or> c = 0x20"

fun tokensFrom :: "jsstring \<Rightarrow> jsstring \<Rightarrow> jsstring list" where
  "tokensFrom acc [] = (if acc = [] then [] else [acc])"
| "tokensFrom acc (c # cs) =
     (if isAsciiWhitespace c
      then (if acc = [] then tokensFrom [] cs else acc # tokensFrom [] cs)
      else tokensFrom (acc @ [c]) cs)"

definition classList_contains :: "store \<Rightarrow> ref \<Rightarrow> jsstring \<Rightarrow> bool" where
  "classList_contains h r c \<longleftrightarrow>
     c \<in> set (tokensFrom [] (nullToEmpty (getAttribute h r (js ''class''))))"

text \<open>
  What the importers read from the tree through the DOM library, without changing it:
  the selector engine, the serialiser behind the getter of \<open>innerHTML\<close>, and
  \<open>textContent\<close>. They are parameters of the model, functions of the store at the moment
  of the call, of the node asked and (for the queries) of the selector string.
\<close>

record dom =
  querySelector :: "store \<Rightarrow> ref \<Rightarrow> jsstring \<Rightarrow> ref option"
  querySelectorAll :: "store \<Rightarrow> ref \<Rightarrow> jsstring \<Rightarrow> ref list"
  innerHTML :: "store \<Rightarrow> ref \<Rightarrow> jsstring"
  textContent :: "store \<Rightarrow> ref \<Rightarrow> jsstring"


section \<open>DOM utilities\<close>

text \<open>
  \<open>DOM.createTable\<close> (lines 14-37). A cell of the data is a string, an array of
  elements or one element.
\<close>

datatype cell = Str jsstring | Elems "ref list" | Elem ref

definition fillCell :: "ref \<Rightarrow> cell \<Rightarrow> store \<Rightarrow> store" where
  "fillCell t c h =
     (case c of
        Str s \<Rightarrow> set_innerHTML t s h
      | Elems cs \<Rightarrow> foldl (\<lambda>h c. node_append t c h) h cs
      | Elem e \<Rightarrow> node_append t e h)"

definition createCell :: "nat \<Rightarrow> ref \<Rightarrow> store \<Rightarrow> cell \<Rightarrow> store" where
  "createCell index tr h c =
     (let (t, h) = createElement (if index = 0 then js ''th'' else js ''td'') h;
          h = fillCell t c h
      in appendChild tr t h)"

definition createRow :: "ref \<Rightarrow> store \<Rightarrow> cell list \<times> nat \<Rightarrow> store" where
  "createRow table h ri =
     (case ri of (row, index) \<Rightarrow>
        (let (tr, h) = createElement (js ''tr'') h;
             h = foldl (createCell index tr) h row
         in appendChild table tr h))"

definition createTable :: "cell list list \<Rightarrow> store \<Rightarrow> ref \<times> store" where
  "createTable data h =
     (let (table, h) = createElement (js ''table'') h;
          h = foldl (createRow table) h (zip data [0..<length data])
      in (table, h))"

text \<open>
  \<open>DOM.replaceBackgroundByImg\<close> (lines 39-49). The three \<open>replace\<close> calls delete every
  \<open>url(\<close>, then every apostrophe, then every closing parenthesis.
\<close>

fun remove_url_open :: "jsstring \<Rightarrow> jsstring" where
  "remove_url_open (a # b # c # d # rest) =
     (if [a, b, c, d] = js ''url('' then remove_url_open rest
      else a # remove_url_open (b # c # d # rest))"
| "remove_url_open s = s"

definition replaceBackgroundByImg ::
  "(jsstring \<Rightarrow> jsstring) \<Rightarrow> ref \<Rightarrow> store \<Rightarrow> ref \<times> store" where
  "replaceBackgroundByImg serialize tag h =
     (let url = style_get serialize h tag (js ''background-image'')
      in if url \<noteq> []
         then
           (let src = replaceAllUnit 0x29 [] (replaceAllUnit 0x27 [] (remove_url_open url));
                (img, h) = createElement (js ''img'') h;
                h = setAttribute img (js ''src'') src h;
                h = replaceWith tag img h
            in (img, h))
         else (tag, h))"

text \<open>
  Reading a table back from the store: the rows of the table \<open>T\<close>, each the list of its
  cells, a cell given by its tag name and its children. The result is \<open>None\<close> unless \<open>T\<close>
  is a \<open>table\<close> element whose children are \<open>tr\<close> elements whose children are elements.
\<close>

fun refsOf :: "item list \<Rightarrow> ref list option" where
  "refsOf [] = Some []"
| "refsOf (Node c # xs) = map_option ((#) c) (refsOf xs)"
| "refsOf (Markup s # xs) = None"
| "refsOf (Text s # xs) = None"

definition cellsOf :: "store \<Rightarrow> ref \<Rightarrow> (jsstring \<times> item list) list option" where
  "cellsOf h tr =
     (if tr < length h \<and> tagName (h ! tr) = js ''tr''
      then (case refsOf (childNodes (h ! tr)) of
              None \<Rightarrow> None
            | Some ts \<Rightarrow>
                if list_all (\<lambda>t. t < length h) ts
                then Some (map (\<lambda>t. (tagName (h ! t), childNodes (h ! t))) ts)
                else None)
      else None)"

definition tableRows :: "store \<Rightarrow> ref \<Rightarrow> (jsstring \<times> item list) list list option" where
  "tableRows h T =
     (if T < length h \<and> tagName (h ! T) = js ''table''
      then (case refsOf (childNodes (h ! T)) of
              None \<Rightarrow> None
            | Some trs \<Rightarrow> those (map (cellsOf h) trs))
      else None)"

text \<open>The element references of a cell, in the order in which \<open>createTable\<close> appends
  them, and the children a cell of the table gets from a cell of the data.\<close>

fun cellRefs :: "cell \<Rightarrow> ref list" where
  "cellRefs (Str s) = []"
| "cellRefs (Elems cs) = cs"
| "cellRefs (Elem e) = [e]"

definition dataRefs :: "cell list list \<Rightarrow> ref list" where
  "dataRefs data = concat (map (\<lambda>row. concat (map cellRefs row)) data)"

fun cellContent :: "cell \<Rightarrow> item list" where
  "cellContent (Str s) = markup s"
| "cellContent (Elems cs) = map Node cs"
| "cellContent (Elem e) = [Node e]"



section \<open>Importer: block builders\<close>

text \<open>
  \<open>createEmbeds\<close> (lines 140-151, and 379-390 with the same body). The loop body first:
  \<open>src && src.startsWith('//') ? `https:${src}` : src\<close> keeps \<open>null\<close> and the empty string.
\<close>

definition embedSrc :: "jsstring option \<Rightarrow> jsstring option" where
  "embedSrc src =
     (case src of
        None \<Rightarrow> None
      | Some s \<Rightarrow> if s \<noteq> [] \<and> prefix (js ''//'') s then Some (js ''https:'' @ s) else Some s)"

text \<open>The template literal \<open>`<a href="${src}">${src}</a>`\<close>.\<close>

definition embedLink :: "jsstring \<Rightarrow> jsstring" where
  "embedLink src = js ''<a href='' @ [0x22] @ src @ [0x22] @ js ''>'' @ src @ js ''</a>''"

definition embedStep :: "store \<Rightarrow> ref \<Rightarrow> store" where
  "embedStep h iframe =
     (let src = getAttribute h iframe (js ''src'');
          src = embedSrc src
      in case src of
           None \<Rightarrow> h
         | Some s \<Rightarrow>
             if s = [] then h
             else (let (table, h) = createTable [[Str (js ''Embed'')], [Str (embedLink s)]] h
                   in replaceWith iframe table h))"

definition createEmbeds :: "dom \<Rightarrow> ref \<Rightarrow> store \<Rightarrow> store" where
  "createEmbeds Q main h = foldl embedStep h (querySelectorAll Q h main (js ''iframe''))"

text \<open>
  \<open>createCallouts\<close> (lines 153-190, and 392-429 with the same body). The body of the
  loop is given in its consecutive parts: the block name (lines 156-162), the container
  (lines 166-180), the rows (lines 155, 164, 182-187) and the replacement (line 188).
\<close>

definition calloutName :: "store \<Rightarrow> ref \<Rightarrow> jsstring" where
  "calloutName h callout =
     (let blockName = js ''Callout''
      in if classList_contains h callout (js ''blogPostContent__ctaContainer--right'')
         then blockName @ js '' (right)''
         else if classList_contains h callout (js ''blogPostContent__ctaContainer--left'')
         then blockName @ js '' (left)''
         else blockName)"

definition calloutContainer :: "dom \<Rightarrow> ref \<Rightarrow> store \<Rightarrow> ref \<times> store" where
  "calloutContainer Q callout h =
     (let (container, h) = createElement (js ''div'') h;
          h = (case querySelector Q h callout (js ''.blogPostContent__ctaText'') of
                 None \<Rightarrow> h
               | Some firstText \<Rightarrow>
                   (let (h3, h) = createElement (js ''h3'') h;
                        h = set_innerHTML h3 (textContent Q h firstText) h
                    in node_append container h3 h));
          h = (case querySelector Q h callout (js ''.blogPostContent__ctaSubheading'') of
                 None \<Rightarrow> h
               | Some sub \<Rightarrow>
                   (let (p, h) = createElement (js ''p'') h;
                        h = set_innerHTML p (innerHTML Q h sub) h
                    in node_append container p h))
      in (container, h))"

definition calloutRows :: "dom \<Rightarrow> ref \<Rightarrow> store \<Rightarrow> cell list list \<times> store" where
  "calloutRows Q callout h =
     (let rows = [];
          rows = rows @ [[Str (calloutName h callout)]];
          (container, h) = calloutContainer Q callout h;
          rows = rows @ [[Elem container]];
          cta = querySelector Q h callout (js ''a'');
          rows = (case cta of None \<Rightarrow> rows | Some a \<Rightarrow> rows @ [[Elem a]])
      in (rows, h))"

definition calloutStep :: "dom \<Rightarrow> store \<Rightarrow> ref \<Rightarrow> store" where
  "calloutStep Q h callout =
     (let (rows, h) = calloutRows Q callout h;
          (table, h) = createTable rows h
      in replaceWith callout table h)"

definition createCallouts :: "dom \<Rightarrow> ref \<Rightarrow> store \<Rightarrow> store" where
  "createCallouts Q main h =
     foldl (calloutStep Q) h (querySelectorAll Q h main (js ''.blogPostContent__ctaContainer''))"





section \<open>Importer: metadata\<close>

text \<open>
  The metadata object maps field names to strings or elements; the order of its keys is
  the order of the assignments, so it is an association list. A property that does not
  exist reads as \<open>undefined\<close>. \<open>meta.Key = v\<close> is \<open>AList.update\<close>: a new key is added at the
  end.
\<close>

datatype "value" = StringValue jsstring | ElementValue ref | Undefined

type_synonym metadata = "(jsstring \<times> value) list"

datatype error = TypeError

text \<open>
  \<open>e.content\<close> is the \<open>content\<close> attribute of a \<open>meta\<close> element, the empty string when
  the attribute is missing; other elements have no such property (\<open>None\<close> stands for
  \<open>undefined\<close>; the document fragment of a \<open>template\<close> element is not modelled).
\<close>

definition content :: "store \<Rightarrow> ref \<Rightarrow> jsstring option" where
  "content h r =
     (if tagName (h ! r) = js ''meta'' then Some (nullToEmpty (getAttribute h r (js ''content'')))
      else None)"

definition valueOf :: "jsstring option \<Rightarrow> value" where
  "valueOf v = (case v of None \<Rightarrow> Undefined | Some s \<Rightarrow> StringValue s)"

text \<open>Assigning to \<open>el.src\<close> converts to a string.\<close>

definition toString :: "jsstring option \<Rightarrow> jsstring" where
  "toString v = (case v of None \<Rightarrow> js ''undefined'' | Some s \<Rightarrow> s)"

text \<open>The selector \<open>[name="value"]\<close>.\<close>

definition attributeSelector :: "string \<Rightarrow> string \<Rightarrow> jsstring" where
  "attributeSelector name v = js ''['' @ js name @ js ''='' @ [0x22] @ js v @ [0x22] @ js '']''"

text \<open>\<open>s.trim()\<close> removes white space and line terminators at both ends;
  \<open>s.split('\n')\<close> cuts at every line feed and gives one piece for the empty string.\<close>

definition isWhiteSpace :: "16 word \<Rightarrow> bool" where
  "isWhiteSpace c \<longleftrightarrow>
     (0x09 \<le> c \<and> c \<le> 0x0D) \<or> c = 0x20 \<or> c = 0xA0 \<or> c = 0x1680
     \<or> (0x2000 \<le> c \<and> c \<le> 0x200A) \<or> c = 0x2028 \<or> c = 0x2029 \<or> c = 0x202F
     \<or> c = 0x205F \<or> c = 0x3000 \<or> c = 0xFEFF"

definition trim :: "jsstring \<Rightarrow> jsstring" where
  "trim s = rev (dropWhile isWhiteSpace (rev (dropWhile isWhiteSpace s)))"

fun split :: "16 word \<Rightarrow> jsstring \<Rightarrow> jsstring list" where
  "split sep [] = [[]]"
| "split sep (x # xs) =
     (if x = sep then [] # split sep xs
      else (case split sep xs of [] \<Rightarrow> [[x]] | y # ys \<Rightarrow> (x # y) # ys))"

text \<open>
  \<open>createMetadata\<close>, variant 1 (lines 90-138). The fields read from the document
  (lines 93-111): \<open>date.content.substring\<close> throws a \<open>TypeError\<close> when \<open>date.content\<close> is
  \<open>undefined\<close>.
\<close>

definition documentFields :: "dom \<Rightarrow> ref \<Rightarrow> store \<Rightarrow> error + metadata" where
  "documentFields Q document h =
     (let meta = [];
          meta = (case querySelector Q h document (js ''title'') of
                    None \<Rightarrow> meta
                  | Some title \<Rightarrow>
                      AList.update (js ''Title'')
                        (StringValue (filter (\<lambda>c. c \<noteq> 0x0A \<and> c \<noteq> 0x09) (innerHTML Q h title)))
                        meta);
          meta = (case querySelector Q h document (attributeSelector ''property'' ''og:description'') of
                    None \<Rightarrow> meta
                  | Some desc \<Rightarrow> AList.update (js ''Description'') (valueOf (content h desc)) meta);
          meta = (case querySelector Q h document (attributeSelector ''property'' ''article:section'') of
                    None \<Rightarrow> meta
                  | Some category \<Rightarrow>
                      AList.update (js ''Category'') (valueOf (content h category)) meta)
      in case querySelector Q h document (attributeSelector ''property'' ''article:published_time'') of
           None \<Rightarrow> Inr meta
         | Some date \<Rightarrow>
             (case content h date of
                None \<Rightarrow> Inl TypeError
              | Some c \<Rightarrow>
                  Inr (AList.update (js ''Publication Date'')
                         (StringValue (substring c 0 (indexOf c 0x54))) meta)))"

text \<open>The fields read from the main region and the image (lines 113-132).\<close>

definition mainFields :: "dom \<Rightarrow> metadata \<Rightarrow> ref \<Rightarrow> ref \<Rightarrow> store \<Rightarrow> metadata \<times> store" where
  "mainFields Q meta main document h =
     (let meta = (case querySelector Q h main (attributeSelector ''rel'' ''author'') of
                    None \<Rightarrow> meta
                  | Some author \<Rightarrow> AList.update (js ''Author'') (ElementValue author) meta);
          meta = (case querySelector Q h main (js ''.blogPostContent__metaTop'') of
                    None \<Rightarrow> meta
                  | Some metatop \<Rightarrow>
                      (let parts = split 0x0A (trim (textContent Q h metatop))
                       in if length parts = 3
                          then AList.update (js ''Read Time'') (StringValue (trim (parts ! 2))) meta
                          else meta))
      in case querySelector Q h document (attributeSelector ''property'' ''og:image'') of
           None \<Rightarrow> (meta, h)
         | Some img \<Rightarrow>
             (let (el, h') = createElement (js ''img'') h;
                  h' = setAttribute el (js ''src'') (toString (content h img)) h'
              in (AList.update (js ''Image'') (ElementValue el) meta, h')))"

text \<open>
  \<open>Blocks.getMetadataBlock\<close> renders the metadata as a block; it is not part of the
  importers and is a parameter, a function of the metadata and the store that returns the
  block and the store, and leaves the metadata object as it is.
\<close>

definition createMetadata ::
  "dom \<Rightarrow> (metadata \<Rightarrow> store \<Rightarrow> ref \<times> store) \<Rightarrow> ref \<Rightarrow> ref \<Rightarrow> store \<Rightarrow> error + metadata \<times> store"
where
  "createMetadata Q getMetadataBlock main document h =
     (case documentFields Q document h of
        Inl e \<Rightarrow> Inl e
      | Inr meta \<Rightarrow>
          (let (meta, h) = mainFields Q meta main document h;
               (block, h) = getMetadataBlock meta h;
               h = node_append main block h
           in Inr (meta, h)))"

text \<open>
  Variant 2 (lines 314-377) adds the card image (lines 358-371). What the regular
  expression and \<open>JSON.parse\<close> compute is given by two parameters: \<open>yoastMatch html\<close> is
  the first group of the match, \<open>None\<close> without a match; \<open>graphImageUrl s\<close> is the value of
  \<open>url\<close> after \<open>JSON.parse(s)\<close> and the lookup in \<open>@graph\<close>: \<open>Inl\<close> when one of them throws,
  \<open>Inr None\<close> for a falsy value, \<open>Inr (Some u)\<close> for a truthy one that reads \<open>u\<close> as a
  string. The \<open>catch\<close> branch writes a warning and goes on.
\<close>

definition cardImage ::
  "(jsstring \<Rightarrow> jsstring option) \<Rightarrow> (jsstring \<Rightarrow> error + jsstring option) \<Rightarrow> jsstring \<Rightarrow>
   metadata \<Rightarrow> store \<Rightarrow> metadata \<times> store"
where
  "cardImage yoastMatch graphImageUrl html meta h =
     (case yoastMatch html of
        None \<Rightarrow> (meta, h)
      | Some m \<Rightarrow>
          (case graphImageUrl m of
             Inl e \<Rightarrow> (meta, h)
           | Inr None \<Rightarrow> (meta, h)
           | Inr (Some url) \<Rightarrow>
               (let (el, h) = createElement (js ''img'') h;
                    h = setAttribute el (js ''src'') url h
                in (AList.update (js ''Card Image'') (ElementValue el) meta, h))))"

definition createMetadata_v2 ::
  "dom \<Rightarrow> (metadata \<Rightarrow> store \<Rightarrow> ref \<times> store) \<Rightarrow> (jsstring \<Rightarrow> jsstring option) \<Rightarrow>
   (jsstring \<Rightarrow> error + jsstring option) \<Rightarrow> ref \<Rightarrow> ref \<Rightarrow> jsstring \<Rightarrow> store \<Rightarrow>
   error + metadata \<times> store"
where
  "createMetadata_v2 Q getMetadataBlock yoastMatch graphImageUrl main document html h =
     (case documentFields Q document h of
        Inl e \<Rightarrow> Inl e
      | Inr meta \<Rightarrow>
          (let (meta, h) = mainFields Q meta main document h;
               (meta, h) = cardImage yoastMatch graphImageUrl html meta h;
               (block, h) = getMetadataBlock meta h;
               h = node_append main block h
           in Inr (meta, h)))"



section \<open>Auxiliary notions for the proofs\<close>

text \<open>
  \<open>frame R X h h'\<close>: the store \<open>h'\<close> extends \<open>h\<close>; every node of \<open>h\<close> keeps its tag name,
  attributes and style; only nodes of \<open>R\<close> change their parent; outside \<open>X\<close> the children
  of a node can only be lost, and are kept when none of them is in \<open>R\<close>.
\<close>

definition frame :: "ref set \<Rightarrow> ref set \<Rightarrow> store \<Rightarrow> store \<Rightarrow> bool" where
  "frame R X h h' \<longleftrightarrow>
     length h \<le> length h' \<and>
     (\<forall>x<length h.
        tagName (h' ! x) = tagName (h ! x) \<and>
        attributes (h' ! x) = attributes (h ! x) \<and>
        style (h' ! x) = style (h ! x) \<and>
        (x \<notin> R \<longrightarrow> parentNode (h' ! x) = parentNode (h ! x)) \<and>
        (x \<notin> X \<longrightarrow> subseq (childNodes (h' ! x)) (childNodes (h ! x))) \<and>
        (x \<notin> X \<longrightarrow> (\<forall>c\<in>R. Node c \<notin> set (childNodes (h ! x))) \<longrightarrow>
           childNodes (h' ! x) = childNodes (h ! x)))"

text \<open>The element references of a row and of indexed rows, and the rows that
  \<open>tableRows\<close> is to read back from the table built from the data.\<close>

definition rowRefs :: "cell list \<Rightarrow> ref list" where
  "rowRefs row = concat (map cellRefs row)"

definition pairsRefs :: "(cell list \<times> nat) list \<Rightarrow> ref list" where
  "pairsRefs ris = concat (map (\<lambda>ri. rowRefs (fst ri)) ris)"

definition rowSpec :: "nat \<Rightarrow> cell list \<Rightarrow> (jsstring \<times> item list) list" where
  "rowSpec index row = map (\<lambda>c. (if index = 0 then js ''th'' else js ''td'', cellContent c)) row"

definition tableSpec :: "cell list list \<Rightarrow> (jsstring \<times> item list) list list" where
  "tableSpec data = map (\<lambda>ri. rowSpec (snd ri) (fst ri)) (zip data [0..<length data])"

text \<open>A key that is in the metadata under a condition.\<close>

definition opt_key :: "bool \<Rightarrow> jsstring \<Rightarrow> jsstring list" where
  "opt_key present k = (if present then [k] else [])"

text \<open>
  For one callout: the link that \<open>callout.querySelector('a')\<close> finds (asked once the
  container is built), and the table that the step builds, which is allocated next after
  the container and its parts.
\<close>

definition calloutLink :: "dom \<Rightarrow> store \<Rightarrow> ref \<Rightarrow> ref option" where
  "calloutLink Q h callout =
     querySelector Q (snd (calloutContainer Q callout h)) callout (js ''a'')"

definition calloutTable :: "dom \<Rightarrow> store \<Rightarrow> ref \<Rightarrow> ref" where
  "calloutTable Q h callout =
     (case calloutRows Q callout h of (rows, h') \<Rightarrow> fst (createTable rows h'))"

text \<open>
  For the embeds, stated without the functions of the importer: the URL that an iframe
  is to give, which is its \<open>src\<close> attribute with \<open>https:\<close> put before it when its first
  two units are \<open>//\<close>, and none when the attribute is absent or empty; the pairs of an
  iframe that is to be replaced and the table that replaces it (a table of two rows of
  one cell takes five nodes: the table, two rows, two cells, so \<open>n\<close> advances by five);
  and an item of the children of \<open>x\<close> after the replacements.
\<close>

definition embedUrl :: "store \<Rightarrow> ref \<Rightarrow> jsstring option" where
  "embedUrl h iframe =
     (case getAttribute h iframe (js ''src'') of
        None \<Rightarrow> None
      | Some src \<Rightarrow>
          if src = [] then None
          else Some (if take 2 src = js ''//'' then js ''https:'' @ src else src))"

fun embedTables :: "store \<Rightarrow> nat \<Rightarrow> ref list \<Rightarrow> (ref \<times> ref) list" where
  "embedTables h n [] = []"
| "embedTables h n (iframe # iframes) =
     (case embedUrl h iframe of
        None \<Rightarrow> embedTables h n iframes
      | Some s \<Rightarrow> (iframe, n) # embedTables h (n + 5) iframes)"

definition swapItem :: "store \<Rightarrow> ref \<Rightarrow> (ref \<times> ref) list \<Rightarrow> item \<Rightarrow> item" where
  "swapItem h x T it =
     (case it of
        Node c \<Rightarrow>
          (case map_of T c of
             None \<Rightarrow> it
           | Some t \<Rightarrow> if parentNode (h ! c) = Some x then Node t else it)
      | Markup s \<Rightarrow> it
      | Text s \<Rightarrow> it)"

text \<open>The rows that the table of an iframe with the URL \<open>s\<close> is to read back as: the
  header \<open>Embed\<close> and one cell with the markup of a hyperlink to \<open>s\<close> that shows \<open>s\<close>
  (\<open>0x22\<close> is the double quote, \<open>0x3E\<close> the closing angle bracket).\<close>

definition embedRows :: "jsstring \<Rightarrow> (jsstring \<times> item list) list list" where
  "embedRows s =
     [[(js ''th'', [Markup (js ''Embed'')])],
      [(js ''td'', [Markup (js ''<a href='' @ [0x22] @ s @ [0x22, 0x3E] @ s @ js ''</a>'')])]]"


text \<open>
  For the callouts. A store \<open>s\<close> \<open>grows\<close> from \<open>h\<close> when it has the nodes of \<open>h\<close>, with their
  tags, and maybe more. \<open>linksFound Q h\<close> is what every DOM library gives for the selector
  \<open>a\<close>, on every store grown from \<open>h\<close>: an answer is a node of the store, with the tag
  \<open>a\<close>. \<open>turnStore Q h callouts k\<close> is the store at the turn of the callout number \<open>k\<close>,
  which the turns before it have left.
\<close>

definition grows :: "store \<Rightarrow> store \<Rightarrow> bool" where
  "grows h s \<longleftrightarrow> length h \<le> length s \<and> (\<forall>x<length h. tagName (s ! x) = tagName (h ! x))"

definition linksFound :: "dom \<Rightarrow> store \<Rightarrow> bool" where
  "linksFound Q h \<longleftrightarrow>
     (\<forall>s c a. grows h s \<and> querySelector Q s c (js ''a'') = Some a \<longrightarrow>
        a < length s \<and> tagName (s ! a) = js ''a'')"

definition turnStore :: "dom \<Rightarrow> store \<Rightarrow> ref list \<Rightarrow> nat \<Rightarrow> store" where
  "turnStore Q h callouts k = foldl (calloutStep Q) h (take k callouts)"

text \<open>
  The conditions under which the turns are followed: the callouts still to come are
  nodes below \<open>N\<close>, each once, none of them a link, each with its parent (if any) below
  \<open>N\<close>. And what is kept of the block of a callout once it is built: the table \<open>T\<close> reads
  back as the header row with the name, the row with the container \<open>D\<close>, and a third row
  when a link was found, whose cell holds the link unless a later turn has taken it;
  the nodes of the table are at or above \<open>N\<close>; the container is a \<open>div\<close> with the
  children \<open>dk\<close>, none of them a link; the parent of the table is \<open>par\<close>.
\<close>

definition calloutsOk :: "dom \<Rightarrow> nat \<Rightarrow> store \<Rightarrow> ref list \<Rightarrow> bool" where
  "calloutsOk Q N s cs \<longleftrightarrow>
     N \<le> length s \<and> distinct cs
     \<and> (\<forall>c\<in>set cs. c < N \<and> tagName (s ! c) \<noteq> js ''a''
           \<and> (\<forall>p. parentNode (s ! c) = Some p \<longrightarrow> p < N))
     \<and> linksFound Q s"

definition blockAt ::
  "store \<Rightarrow> nat \<Rightarrow> ref \<Rightarrow> ref \<Rightarrow> jsstring \<Rightarrow> ref option \<Rightarrow> item list \<Rightarrow> ref option \<Rightarrow> bool" where
  "blockAt s N T D name link dk par \<longleftrightarrow>
     (\<exists>third. tableRows s T =
          Some ([(js ''th'', [Markup name])] # [(js ''td'', [Node D])] # third)
        \<and> (case link of
             None \<Rightarrow> third = []
           | Some a \<Rightarrow> \<exists>kids. third = [[(js ''td'', kids)]] \<and> subseq kids [Node a]))
     \<and> N \<le> T
     \<and> (\<forall>t. Node t \<in> set (childNodes (s ! T)) \<longrightarrow>
           N \<le> t \<and> (\<forall>c. Node c \<in> set (childNodes (s ! t)) \<longrightarrow> N \<le> c))
     \<and> N \<le> D \<and> D < length s \<and> tagName (s ! D) = js ''div'' \<and> childNodes (s ! D) = dk
     \<and> (\<forall>c. Node c \<in> set dk \<longrightarrow> c < length s \<and> tagName (s ! c) \<noteq> js ''a'')
     \<and> parentNode (s ! T) = par"


section \<open>Sample documents\<close>

text \<open>
  Small stores on which the properties are evaluated. \<open>sample_page\<close> is a \<open>div\<close> (node 0)
  with two children: a link (node 1) and a banner (node 2) whose inline style declares a
  background image, the URL written in apostrophes.
\<close>

definition sample_page :: store where
  "sample_page =
     [\<lparr>tagName = js ''div'', attributes = [], style = [], parentNode = None,
        childNodes = [Node 1, Node 2]\<rparr>,
      \<lparr>tagName = js ''a'', attributes = [(js ''href'', js ''/p'')], style = [],
        parentNode = Some 0, childNodes = [Text (js ''Post'')]\<rparr>,
      \<lparr>tagName = js ''div'', attributes = [],
        style = [(js ''background-image'', js ''url('' @ [0x27] @ js ''http://x/y.png'' @ [0x27] @ js '')'')],
        parentNode = Some 0, childNodes = []\<rparr>]"

text \<open>
  \<open>standard_cssom\<close> is a serialisation as the CSSOM standard has it for a URL value: the
  URL comes back in double quotes, whether the author wrote it in apostrophes, in double
  quotes or bare (escapes inside the URL are left as they are); any other value comes
  back as it is.
\<close>

definition standard_cssom :: "jsstring \<Rightarrow> jsstring" where
  "standard_cssom v =
     (if prefix (js ''url('') v \<and> last v = 0x29
      then
        (let inner = butlast (drop 4 v);
             u = (if 2 \<le> length inner \<and> hd inner = last inner
                     \<and> (hd inner = 0x22 \<or> hd inner = 0x27)
                  then butlast (tl inner) else inner)
         in js ''url('' @ [0x22] @ u @ [0x22] @ js '')'')
      else v)"

text \<open>
  \<open>article_page\<close> is a document (node 0) with a description (node 1), a publication
  date without a time (node 2) and a main region (node 3) whose meta text (node 4) has
  one line; it has no title. \<open>article_dom\<close> gives the answers of the DOM library on this
  document, and \<open>sample_block\<close> stands for the renderer of the metadata block.
\<close>

definition article_page :: store where
  "article_page =
     [\<lparr>tagName = js ''#document'', attributes = [], style = [], parentNode = None,
        childNodes = [Node 1, Node 2, Node 3]\<rparr>,
      \<lparr>tagName = js ''meta'',
        attributes = [(js ''property'', js ''og:description''), (js ''content'', js ''About'')],
        style = [], parentNode = Some 0, childNodes = []\<rparr>,
      \<lparr>tagName = js ''meta'',
        attributes = [(js ''property'', js ''article:published_time''),
                      (js ''content'', js ''2021-03-04'')],
        style = [], parentNode = Some 0, childNodes = []\<rparr>,
      \<lparr>tagName = js ''div'', attributes = [(js ''class'', js ''blogPostMain'')], style = [],
        parentNode = Some 0, childNodes = [Node 4]\<rparr>,
      \<lparr>tagName = js ''div'', attributes = [(js ''class'', js ''blogPostContent__metaTop'')],
        style = [], parentNode = Some 3, childNodes = [Text (js ''5 min read'')]\<rparr>]"

definition article_dom :: dom where
  "article_dom =
     \<lparr>querySelector = (\<lambda>h r s.
          if r = 0 \<and> s = attributeSelector ''property'' ''og:description'' then Some 1
          else if r = 0 \<and> s = attributeSelector ''property'' ''article:published_time'' then Some 2
          else if r = 3 \<and> s = js ''.blogPostContent__metaTop'' then Some 4
          else None),
      querySelectorAll = (\<lambda>h r s. []),
      innerHTML = (\<lambda>h r. []),
      textContent = (\<lambda>h r. if r = 4 then js ''5 min read'' else [])\<rparr>"

definition sample_block :: "metadata \<Rightarrow> store \<Rightarrow> ref \<times> store" where
  "sample_block meta h = createElement (js ''table'') h"

text \<open>
  \<open>callouts_page\<close> is a main region (node 0) with two callouts. The first (node 2)
  carries the right-modifier class and holds a heading text (node 1) and a link (node 3).
  The second (node 4) carries no modifier class and is empty. \<open>callouts_dom\<close> gives the
  answers of the DOM library on this page, \<open>no_match_dom\<close> finds nothing.
\<close>

definition callouts_page :: store where
  "callouts_page =
     [\<lparr>tagName = js ''div'', attributes = [(js ''class'', js ''blogPostMain'')], style = [],
        parentNode = None, childNodes = [Node 2, Node 4]\<rparr>,
      \<lparr>tagName = js ''span'', attributes = [(js ''class'', js ''blogPostContent__ctaText'')],
        style = [], parentNode = Some 2, childNodes = [Text (js ''Try it'')]\<rparr>,
      \<lparr>tagName = js ''div'',
        attributes = [(js ''class'',
          js ''blogPostContent__ctaContainer blogPostContent__ctaContainer--right'')],
        style = [], parentNode = Some 0, childNodes = [Node 1, Node 3]\<rparr>,
      \<lparr>tagName = js ''a'', attributes = [(js ''href'', js ''/go'')], style = [],
        parentNode = Some 2, childNodes = [Text (js ''Go'')]\<rparr>,
      \<lparr>tagName = js ''div'',
        attributes = [(js ''class'', js ''blogPostContent__ctaContainer'')],
        style = [], parentNode = Some 0, childNodes = []\<rparr>]"

definition callouts_dom :: dom where
  "callouts_dom =
     \<lparr>querySelector = (\<lambda>h r s.
          if r = 2 \<and> s = js ''.blogPostContent__ctaText'' then Some 1
          else if r = 2 \<and> s = js ''a'' then Some 3
          else None),
      querySelectorAll = (\<lambda>h r s.
          if r = 0 \<and> s = js ''.blogPostContent__ctaContainer'' then [2, 4] else []),
      innerHTML = (\<lambda>h r. []),
      textContent = (\<lambda>h r. if r = 1 then js ''Try it'' else [])\<rparr>"




text \<open>
  \<open>embed_page\<close> is a main region (node 0) holding an iframe with a protocol-relative
  \<open>src\<close> (node 1), a text, an iframe without \<open>src\<close> (node 2), an iframe with an empty
  \<open>src\<close> (node 3) and an iframe with an absolute \<open>src\<close> (node 4). \<open>embed_dom\<close> gives the
  answers of the DOM library on it.
\<close>

definition embed_page :: store where
  "embed_page =
     [\<lparr>tagName = js ''div'', attributes = [], style = [], parentNode = None,
        childNodes = [Node 1, Text (js ''x''), Node 2, Node 3, Node 4]\<rparr>,
      \<lparr>tagName = js ''iframe'', attributes = [(js ''src'', js ''//example.com/v'')],
        style = [], parentNode = Some 0, childNodes = []\<rparr>,
      \<lparr>tagName = js ''iframe'', attributes = [], style = [], parentNode = Some 0,
        childNodes = []\<rparr>,
      \<lparr>tagName = js ''iframe'', attributes = [(js ''src'', [])], style = [],
        parentNode = Some 0, childNodes = []\<rparr>,
      \<lparr>tagName = js ''iframe'', attributes = [(js ''src'', js ''http://e.org/w'')],
        style = [], parentNode = Some 0, childNodes = []\<rparr>]"

definition embed_dom :: dom where
  "embed_dom =
     \<lparr>querySelector = (\<lambda>h r s. None),
      querySelectorAll = (\<lambda>h r s. if r = 0 \<and> s = js ''iframe'' then [1, 2, 3, 4] else []),
      innerHTML = (\<lambda>h r. []),
      textContent = (\<lambda>h r. [])\<rparr>"


section \<open>Properties of the name derivation\<close>

lemma charAt_first: "charAt (x # xs) 0 = [x]"
  by (simp add: charAt_def)

lemma charAt_last: "xs \<noteq> [] \<Longrightarrow> charAt xs (int (length xs) - 1) = [last xs]"
  by (cases xs rule: rev_cases) (simp_all add: charAt_def nat_diff_distrib')

lemma charAt_Nil: "charAt [] i = []"
  by (simp add: charAt_def)

lemma substring_from_1: "substring_from s 1 = drop 1 s"
  by (cases s) (simp_all add: substring_from_def substring_def clamp_def)

lemma slice_0_minus_1: "slice s 0 (-1) = take (length s - 1) s"
  by (cases s) (simp_all add: slice_def slice_index_def nat_diff_distrib')

lemma cleanupName_eq:
  "cleanupName n =
     (let a = (if n \<noteq> [] \<and> isAlnum (hd n) then 0 else 1);
          b = (if n \<noteq> [] \<and> isAlnum (last n) then 0 else 1)
      in take (length n - a - b) (drop a n))"
proof (cases n)
  case Nil
  then show ?thesis
    by (simp add: cleanupName_def charAt_Nil test_alnum_def substring_from_1 slice_0_minus_1)
next
  case (Cons x xs)
  then have ne: "n \<noteq> []" by simp
  have f: "charAt n 0 = [hd n]" using Cons by (simp add: charAt_first)
  have l: "charAt n (int (length n) - 1) = [last n]" using ne by (rule charAt_last)
  show ?thesis
    unfolding cleanupName_def Let_def f l
    by (simp add: ne test_alnum_def substring_from_1 slice_0_minus_1)
qed


text \<open>
  Claim C4. \<open>cleanupName\<close> drops one code unit from the start when the first one is not
  alphanumeric, one from the end when the last one is not alphanumeric, and nothing else:
  the result is the argument without these (at most two) units, so \<open>-my-post-\<close> gives
  \<open>my-post\<close> and \<open>--a--\<close> keeps its inner hyphens.
\<close>

theorem cleanupName_strips_one_each_side:
  "cleanupName n =
     drop (if n \<noteq> [] \<and> \<not> isAlnum (hd n) then 1 else 0)
       (take (length n - (if n \<noteq> [] \<and> \<not> isAlnum (last n) then 1 else 0)) n)
   \<and> cleanupName (js ''-my-post-'') = js ''my-post''
   \<and> cleanupName (js ''--a--'') = js ''-a-''"
proof (intro conjI)
  show "cleanupName n =
     drop (if n \<noteq> [] \<and> \<not> isAlnum (hd n) then 1 else 0)
       (take (length n - (if n \<noteq> [] \<and> \<not> isAlnum (last n) then 1 else 0)) n)"
    by (cases n) (auto simp: cleanupName_eq Let_def drop_take)
  show "cleanupName (js ''-my-post-'') = js ''my-post''"
    by (simp add: cleanupName_eq js_def isAlnum_def)
  show "cleanupName (js ''--a--'') = js ''-a-''"
    by (simp add: cleanupName_eq js_def isAlnum_def)
qed

theorem cleanupName_strips_one_each_side_witness:
  "cleanupName (js ''_a1.'') = js ''a1'' \<and> cleanupName (js ''a1.'') = js ''a1''
   \<and> cleanupName (js ''a1'') = js ''a1''"
  using cleanupName_strips_one_each_side [of "js ''_a1.''"]
    cleanupName_strips_one_each_side [of "js ''a1.''"]
    cleanupName_strips_one_each_side [of "js ''a1''"]
  by (simp add: js_def isAlnum_def)

text \<open>
  Claim C9. Both tests of \<open>cleanupName\<close> read the argument as it was passed, so a name of
  one non-alphanumeric code unit gives the empty string (the second strip finds nothing
  left), and so does a name of two non-alphanumeric code units.
\<close>

theorem cleanupName_short_names:
  "(\<not> isAlnum c \<longrightarrow> cleanupName [c] = [])
   \<and> (\<not> isAlnum c \<and> \<not> isAlnum d \<longrightarrow> cleanupName [c, d] = [])"
  by (simp add: cleanupName_eq)

theorem cleanupName_short_names_witness:
  "\<not> isAlnum 0x2D \<and> \<not> isAlnum 0x5F \<and> cleanupName (js ''-'') = []
   \<and> cleanupName (js ''-_'') = []"
  using cleanupName_short_names [of "0x2D" "0x5F"]
  by (simp add: js_def isAlnum_def)


section \<open>Properties of the post-processing\<close>

lemma replaceAllUnit_Nil: "replaceAllUnit u [] s = filter (\<lambda>c. c \<noteq> u) s"
  by (induction s) (simp_all add: replaceAllUnit_def)

lemma replaceAllUnit_single: "replaceAllUnit u [v] s = map (\<lambda>c. if c = u then v else c) s"
  by (induction s) (simp_all add: replaceAllUnit_def)

lemma sweepStep_upt:
  "\<forall>i\<in>set [0..<20]. sweepStep ret i =
    Some (map (\<lambda>c. if c = of_nat (16 * (i div 10) + i mod 10) then 0x20 else c) ret)"
  by (simp add: upt_rec sweepStep_def js_def parseInt16_def hexDigit_def fromCodePoint_def
      unicodeEscape_def replaceAllUnit_single)

lemma sweepStep_eq:
  "i < 20 \<Longrightarrow> sweepStep ret i =
    Some (map (\<lambda>c. if c = of_nat (16 * (i div 10) + i mod 10) then 0x20 else c) ret)"
  using sweepStep_upt [of ret] by (simp del: upt.simps)

lemma foldl_sweep:
  "foldl (\<lambda>acc i. Option.bind acc (\<lambda>ret. sweepStep ret i)) (Some ret) [0..<20]
   = Some (map (\<lambda>c. if sweptUnit c then 0x20 else c) ret)"
  apply (simp add: upt_rec sweepStep_eq)
  apply (simp add: sweptUnit_def word_le_nat_alt word_unat_eq_iff)
  by (intro ballI) arith

text \<open>
  Claim C8, as the code has it. Variant 1 returns the framework's text without its
  U+00A0 code units. Variant 2 always returns; before removing U+00A0 it replaces every
  code unit U+0000 to U+0009 and U+0010 to U+0019 by one space (U+0020), so these
  characters are not removed and the length of the text is kept by the loop.
\<close>

theorem postProcessMD_result:
  "postProcessMD super md = filter (\<lambda>c. c \<noteq> 0xA0) (super md)
   \<and> postProcessMD_v2 super md =
       Some (filter (\<lambda>c. c \<noteq> 0xA0) (map (\<lambda>c. if sweptUnit c then 0x20 else c) (super md)))"
  by (simp add: postProcessMD_def postProcessMD_v2_def foldl_sweep replaceAllUnit_Nil)

theorem postProcessMD_result_witness:
  "postProcessMD id [0x61, 0xA0, 0x19, 0x62] = [0x61, 0x19, 0x62]
   \<and> postProcessMD_v2 id [0x61, 0xA0, 0x19, 0x0A, 0x62] = Some [0x61, 0x20, 0x0A, 0x62]"
  using postProcessMD_result [of id "[0x61, 0xA0, 0x19, 0x62]"]
    postProcessMD_result [of id "[0x61, 0xA0, 0x19, 0x0A, 0x62]"]
  by (simp add: sweptUnit_def)

text \<open>
  The claim as written has variant 2 strip the swept characters. On the text \<open>a\<close>, tab,
  \<open>b\<close> the code returns \<open>a\<close>, space, \<open>b\<close>, not \<open>ab\<close>.
\<close>

theorem postProcessMD_v2_keeps_a_space:
  "postProcessMD_v2 id [0x61, 0x09, 0x62] = Some [0x61, 0x20, 0x62]
   \<and> postProcessMD_v2 id [0x61, 0x09, 0x62] \<noteq> Some [0x61, 0x62]"
  by (simp add: postProcessMD_v2_def foldl_sweep replaceAllUnit_Nil sweptUnit_def)

section \<open>Properties of the store operations\<close>

lemma nth_update_field:
  "(\<And>e. f (g e) = f e) \<Longrightarrow> f (h[i := g (h ! i)] ! x) = f (h ! x)"
  by (cases "i = x"; cases "i < length h") (simp_all add: list_update_beyond)

lemma nth_update_childNodes:
  "childNodes (h[i := (h ! i)\<lparr>childNodes := k (childNodes (h ! i))\<rparr>] ! x) =
     (if i = x \<and> x < length h then k (childNodes (h ! x)) else childNodes (h ! x))"
  by (cases "i = x"; cases "i < length h") (simp_all add: list_update_beyond)

lemma nth_update_parentNode:
  "parentNode (h[i := (h ! i)\<lparr>parentNode := v\<rparr>] ! x) =
     (if i = x \<and> x < length h then v else parentNode (h ! x))"
  by (cases "i = x"; cases "i < length h") (simp_all add: list_update_beyond)

lemma createElement_fst: "fst (createElement tag h) = length h"
  by (simp add: createElement_def)

lemma createElement_length: "length (snd (createElement tag h)) = Suc (length h)"
  by (simp add: createElement_def)

lemma createElement_old: "x < length h \<Longrightarrow> snd (createElement tag h) ! x = h ! x"
  by (simp add: createElement_def nth_append)

lemma createElement_new:
  "snd (createElement tag h) ! length h =
    \<lparr>tagName = tag, attributes = [], style = [], parentNode = None, childNodes = []\<rparr>"
  by (simp add: createElement_def)

text \<open>remove_node\<close>

lemma remove_node_length: "length (remove_node c h) = length h"
  by (simp add: remove_node_def Let_def split: option.split)

lemma remove_node_orphan: "parentNode (h ! c) = None \<Longrightarrow> remove_node c h = h"
  by (simp add: remove_node_def)

lemma remove_node_field:
  assumes "\<And>e v. f (e\<lparr>childNodes := v\<rparr>) = f e" and "\<And>e v. f (e\<lparr>parentNode := v\<rparr>) = f e"
  shows "f (remove_node c h ! x) = f (h ! x)"
proof (cases "parentNode (h ! c)")
  case None
  then show ?thesis by (simp add: remove_node_orphan)
next
  case (Some p)
  let ?h1 = "h[p := (h ! p)\<lparr>childNodes := removeAll (Node c) (childNodes (h ! p))\<rparr>]"
  have "f (?h1[c := (?h1 ! c)\<lparr>parentNode := None\<rparr>] ! x) = f (?h1 ! x)"
    by (rule nth_update_field) (simp add: assms)
  also have "\<dots> = f (h ! x)"
    by (rule nth_update_field [where g = "\<lambda>e. e\<lparr>childNodes := removeAll (Node c) (childNodes e)\<rparr>"])
      (simp add: assms)
  finally show ?thesis using Some by (simp add: remove_node_def Let_def)
qed

lemma remove_node_tagName: "tagName (remove_node c h ! x) = tagName (h ! x)"
  by (rule remove_node_field) simp_all

lemma remove_node_attributes: "attributes (remove_node c h ! x) = attributes (h ! x)"
  by (rule remove_node_field) simp_all

lemma remove_node_style: "style (remove_node c h ! x) = style (h ! x)"
  by (rule remove_node_field) simp_all

lemma remove_node_childNodes_eq:
  "childNodes (remove_node c h ! x) =
     (if parentNode (h ! c) = Some x \<and> x < length h
      then removeAll (Node c) (childNodes (h ! x)) else childNodes (h ! x))"
proof (cases "parentNode (h ! c)")
  case None
  then show ?thesis by (simp add: remove_node_orphan)
next
  case (Some p)
  let ?h1 = "h[p := (h ! p)\<lparr>childNodes := removeAll (Node c) (childNodes (h ! p))\<rparr>]"
  have "childNodes (?h1[c := (?h1 ! c)\<lparr>parentNode := None\<rparr>] ! x) = childNodes (?h1 ! x)"
    by (rule nth_update_field) simp
  also have "\<dots> = (if p = x \<and> x < length h
      then removeAll (Node c) (childNodes (h ! x)) else childNodes (h ! x))"
    by (rule nth_update_childNodes)
  finally show ?thesis using Some by (simp add: remove_node_def Let_def)
qed

lemma remove_node_childNodes:
  "Node c \<notin> set (childNodes (h ! x)) \<Longrightarrow> childNodes (remove_node c h ! x) = childNodes (h ! x)"
  by (simp add: remove_node_childNodes_eq)

lemma remove_node_parentNode_eq:
  "parentNode (remove_node c h ! x) =
     (if x = c \<and> c < length h then None else parentNode (h ! x))"
proof (cases "parentNode (h ! c)")
  case None
  then show ?thesis by (auto simp add: remove_node_orphan)
next
  case (Some p)
  let ?h1 = "h[p := (h ! p)\<lparr>childNodes := removeAll (Node c) (childNodes (h ! p))\<rparr>]"
  have l: "length ?h1 = length h" by simp
  have "parentNode (?h1[c := (?h1 ! c)\<lparr>parentNode := None\<rparr>] ! x) =
      (if c = x \<and> x < length ?h1 then None else parentNode (?h1 ! x))"
    by (rule nth_update_parentNode)
  also have "parentNode (?h1 ! x) = parentNode (h ! x)"
    by (rule nth_update_field [where g = "\<lambda>e. e\<lparr>childNodes := removeAll (Node c) (childNodes e)\<rparr>"])
      simp
  finally show ?thesis using Some by (auto simp add: remove_node_def Let_def)
qed

text \<open>node_append\<close>

lemma node_append_length: "length (node_append p c h) = length h"
  by (simp add: node_append_def Let_def remove_node_length)

lemma node_append_field:
  assumes "\<And>e v. f (e\<lparr>childNodes := v\<rparr>) = f e" and "\<And>e v. f (e\<lparr>parentNode := v\<rparr>) = f e"
  shows "f (node_append p c h ! x) = f (h ! x)"
proof -
  let ?h1 = "remove_node c h"
  let ?h2 = "?h1[p := (?h1 ! p)\<lparr>childNodes := childNodes (?h1 ! p) @ [Node c]\<rparr>]"
  have "f (?h2[c := (?h2 ! c)\<lparr>parentNode := Some p\<rparr>] ! x) = f (?h2 ! x)"
    by (rule nth_update_field) (simp add: assms)
  also have "\<dots> = f (?h1 ! x)"
    by (rule nth_update_field [where g = "\<lambda>e. e\<lparr>childNodes := childNodes e @ [Node c]\<rparr>"])
      (simp add: assms)
  also have "\<dots> = f (h ! x)"
    by (rule remove_node_field) (simp_all add: assms)
  finally show ?thesis by (simp add: node_append_def Let_def)
qed

lemma node_append_tagName: "tagName (node_append p c h ! x) = tagName (h ! x)"
  by (rule node_append_field) simp_all

lemma node_append_attributes: "attributes (node_append p c h ! x) = attributes (h ! x)"
  by (rule node_append_field) simp_all

lemma node_append_style: "style (node_append p c h ! x) = style (h ! x)"
  by (rule node_append_field) simp_all

lemma node_append_childNodes_eq:
  "childNodes (node_append p c h ! x) =
     (if p = x \<and> x < length h then childNodes (remove_node c h ! x) @ [Node c]
      else childNodes (remove_node c h ! x))"
proof -
  let ?h1 = "remove_node c h"
  let ?h2 = "?h1[p := (?h1 ! p)\<lparr>childNodes := childNodes (?h1 ! p) @ [Node c]\<rparr>]"
  have "childNodes (?h2[c := (?h2 ! c)\<lparr>parentNode := Some p\<rparr>] ! x) = childNodes (?h2 ! x)"
    by (rule nth_update_field) simp
  also have "\<dots> = (if p = x \<and> x < length ?h1 then childNodes (?h1 ! x) @ [Node c]
      else childNodes (?h1 ! x))"
    by (rule nth_update_childNodes [where k = "\<lambda>cs. cs @ [Node c]"])
  finally show ?thesis by (simp add: node_append_def Let_def remove_node_length)
qed

lemma node_append_childNodes_other:
  "x \<noteq> p \<Longrightarrow> Node c \<notin> set (childNodes (h ! x)) \<Longrightarrow>
     childNodes (node_append p c h ! x) = childNodes (h ! x)"
  by (simp add: node_append_childNodes_eq remove_node_childNodes)

lemma node_append_childNodes_parent:
  "p < length h \<Longrightarrow> Node c \<notin> set (childNodes (h ! p)) \<Longrightarrow>
     childNodes (node_append p c h ! p) = childNodes (h ! p) @ [Node c]"
  by (simp add: node_append_childNodes_eq remove_node_childNodes)

lemma node_append_parentNode_eq:
  "parentNode (node_append p c h ! x) =
     (if x = c \<and> c < length h then Some p else parentNode (h ! x))"
proof -
  let ?h1 = "remove_node c h"
  let ?h2 = "?h1[p := (?h1 ! p)\<lparr>childNodes := childNodes (?h1 ! p) @ [Node c]\<rparr>]"
  have l: "length ?h2 = length h" by (simp add: remove_node_length)
  have "parentNode (?h2[c := (?h2 ! c)\<lparr>parentNode := Some p\<rparr>] ! x) =
      (if c = x \<and> x < length ?h2 then Some p else parentNode (?h2 ! x))"
    by (rule nth_update_parentNode)
  also have "parentNode (?h2 ! x) = parentNode (?h1 ! x)"
    by (rule nth_update_field [where g = "\<lambda>e. e\<lparr>childNodes := childNodes e @ [Node c]\<rparr>"]) simp
  finally have "parentNode (?h2[c := (?h2 ! c)\<lparr>parentNode := Some p\<rparr>] ! x) =
      (if c = x \<and> x < length h then Some p else parentNode (?h1 ! x))"
    by (simp only: l)
  moreover have "node_append p c h = ?h2[c := (?h2 ! c)\<lparr>parentNode := Some p\<rparr>]"
    by (simp add: node_append_def Let_def)
  ultimately show ?thesis
    by (auto simp only: remove_node_parentNode_eq split: if_splits)
qed

text \<open>set_innerHTML\<close>

lemma orphan_length: "length (orphan h i) = length h"
  by (cases i) simp_all

lemma orphan_field:
  "(\<And>e v. f (e\<lparr>parentNode := v\<rparr>) = f e) \<Longrightarrow> f (orphan h i ! x) = f (h ! x)"
  by (cases i) (simp_all add: nth_update_field)

lemma orphan_parentNode:
  "parentNode (orphan h i ! x) = (if i = Node x \<and> x < length h then None else parentNode (h ! x))"
  by (cases i) (auto simp add: nth_update_parentNode)

lemma foldl_orphan_length: "length (foldl orphan h is) = length h"
  by (induction "is" arbitrary: h) (simp_all add: orphan_length)

lemma foldl_orphan_field:
  "(\<And>e v. f (e\<lparr>parentNode := v\<rparr>) = f e) \<Longrightarrow> f (foldl orphan h is ! x) = f (h ! x)"
  by (induction "is" arbitrary: h) (simp_all add: orphan_field)

lemma foldl_orphan_parentNode:
  "parentNode (foldl orphan h is ! x) =
     (if Node x \<in> set is \<and> x < length h then None else parentNode (h ! x))"
  by (induction "is" arbitrary: h) (auto simp add: orphan_parentNode orphan_length)

lemma set_innerHTML_length: "length (set_innerHTML r s h) = length h"
  by (simp add: set_innerHTML_def Let_def foldl_orphan_length)

lemma set_innerHTML_field:
  assumes "\<And>e v. f (e\<lparr>childNodes := v\<rparr>) = f e" and "\<And>e v. f (e\<lparr>parentNode := v\<rparr>) = f e"
  shows "f (set_innerHTML r s h ! x) = f (h ! x)"
proof -
  let ?h1 = "foldl orphan h (childNodes (h ! r))"
  have "f (?h1[r := (?h1 ! r)\<lparr>childNodes := markup s\<rparr>] ! x) = f (?h1 ! x)"
    by (rule nth_update_field) (simp add: assms)
  also have "\<dots> = f (h ! x)"
    by (rule foldl_orphan_field) (simp add: assms)
  finally show ?thesis by (simp add: set_innerHTML_def Let_def)
qed

lemma set_innerHTML_tagName: "tagName (set_innerHTML r s h ! x) = tagName (h ! x)"
  by (rule set_innerHTML_field) simp_all

lemma set_innerHTML_attributes: "attributes (set_innerHTML r s h ! x) = attributes (h ! x)"
  by (rule set_innerHTML_field) simp_all

lemma set_innerHTML_childNodes_eq:
  "childNodes (set_innerHTML r s h ! x) =
     (if r = x \<and> x < length h then markup s else childNodes (h ! x))"
proof -
  let ?h1 = "foldl orphan h (childNodes (h ! r))"
  have "childNodes (?h1[r := (?h1 ! r)\<lparr>childNodes := markup s\<rparr>] ! x) =
      (if r = x \<and> x < length ?h1 then markup s else childNodes (?h1 ! x))"
    by (rule nth_update_childNodes [where k = "\<lambda>_. markup s"])
  also have "childNodes (?h1 ! x) = childNodes (h ! x)"
    by (rule foldl_orphan_field) simp
  finally show ?thesis by (simp add: set_innerHTML_def Let_def foldl_orphan_length)
qed

lemma set_innerHTML_parentNode_eq:
  "parentNode (set_innerHTML r s h ! x) =
     (if Node x \<in> set (childNodes (h ! r)) \<and> x < length h then None else parentNode (h ! x))"
proof -
  let ?h1 = "foldl orphan h (childNodes (h ! r))"
  have "parentNode (?h1[r := (?h1 ! r)\<lparr>childNodes := markup s\<rparr>] ! x) = parentNode (?h1 ! x)"
    by (rule nth_update_field) simp
  then show ?thesis by (simp add: set_innerHTML_def Let_def foldl_orphan_parentNode)
qed

text \<open>setAttribute\<close>

lemma setAttribute_length: "length (setAttribute r n v h) = length h"
  by (simp add: setAttribute_def)

lemma setAttribute_field:
  "(\<And>e v. f (e\<lparr>attributes := v\<rparr>) = f e) \<Longrightarrow> f (setAttribute r n v h ! x) = f (h ! x)"
  unfolding setAttribute_def
  by (rule nth_update_field [where g = "\<lambda>e. e\<lparr>attributes := AList.update n v (attributes e)\<rparr>"]) simp

lemma setAttribute_attributes:
  "r < length h \<Longrightarrow> attributes (setAttribute r n v h ! r) = AList.update n v (attributes (h ! r))"
  by (simp add: setAttribute_def)

text \<open>replaceWith\<close>

lemma replaceWith_length: "length (replaceWith t n h) = length h"
  by (simp add: replaceWith_def Let_def remove_node_length split: option.split)

lemma replaceWith_no_parent: "parentNode (h ! t) = None \<Longrightarrow> replaceWith t n h = h"
  by (simp add: replaceWith_def)

lemma replaceWith_field:
  assumes "\<And>e v. f (e\<lparr>childNodes := v\<rparr>) = f e" and "\<And>e v. f (e\<lparr>parentNode := v\<rparr>) = f e"
  shows "f (replaceWith t n h ! x) = f (h ! x)"
proof (cases "parentNode (h ! t)")
  case None
  then show ?thesis by (simp add: replaceWith_no_parent)
next
  case (Some p)
  let ?h1 = "remove_node n h"
  let ?h2 = "?h1[p := (?h1 ! p)\<lparr>childNodes :=
                        map (\<lambda>x. if x = Node t then Node n else x) (childNodes (?h1 ! p))\<rparr>]"
  let ?h3 = "?h2[n := (?h2 ! n)\<lparr>parentNode := Some p\<rparr>]"
  have "f (?h3[t := (?h3 ! t)\<lparr>parentNode := None\<rparr>] ! x) = f (?h3 ! x)"
    by (rule nth_update_field) (simp add: assms)
  also have "\<dots> = f (?h2 ! x)"
    by (rule nth_update_field) (simp add: assms)
  also have "\<dots> = f (?h1 ! x)"
    by (rule nth_update_field [where g = "\<lambda>e. e\<lparr>childNodes :=
        map (\<lambda>x. if x = Node t then Node n else x) (childNodes e)\<rparr>"]) (simp add: assms)
  also have "\<dots> = f (h ! x)"
    by (rule remove_node_field) (simp_all add: assms)
  finally have "f (?h3[t := (?h3 ! t)\<lparr>parentNode := None\<rparr>] ! x) = f (h ! x)" .
  moreover have "n \<noteq> t \<Longrightarrow> replaceWith t n h = ?h3[t := (?h3 ! t)\<lparr>parentNode := None\<rparr>]"
    using Some by (simp add: replaceWith_def Let_def)
  moreover have "n = t \<Longrightarrow> replaceWith t n h = h"
    using Some by (simp add: replaceWith_def)
  ultimately show ?thesis by (cases "n = t") simp_all
qed

lemma replaceWith_childNodes_eq:
  assumes "parentNode (h ! t) = Some p" and "n \<noteq> t"
  shows "childNodes (replaceWith t n h ! x) =
     (if p = x \<and> x < length h
      then map (\<lambda>x. if x = Node t then Node n else x) (childNodes (remove_node n h ! x))
      else childNodes (remove_node n h ! x))"
proof -
  let ?h1 = "remove_node n h"
  let ?h2 = "?h1[p := (?h1 ! p)\<lparr>childNodes :=
                        map (\<lambda>x. if x = Node t then Node n else x) (childNodes (?h1 ! p))\<rparr>]"
  let ?h3 = "?h2[n := (?h2 ! n)\<lparr>parentNode := Some p\<rparr>]"
  have "childNodes (?h3[t := (?h3 ! t)\<lparr>parentNode := None\<rparr>] ! x) = childNodes (?h3 ! x)"
    by (rule nth_update_field) simp
  also have "\<dots> = childNodes (?h2 ! x)"
    by (rule nth_update_field) simp
  also have "\<dots> = (if p = x \<and> x < length ?h1
      then map (\<lambda>x. if x = Node t then Node n else x) (childNodes (?h1 ! x))
      else childNodes (?h1 ! x))"
    by (rule nth_update_childNodes [where k = "map (\<lambda>x. if x = Node t then Node n else x)"])
  finally have "childNodes (?h3[t := (?h3 ! t)\<lparr>parentNode := None\<rparr>] ! x) =
      (if p = x \<and> x < length h
      then map (\<lambda>x. if x = Node t then Node n else x) (childNodes (?h1 ! x))
      else childNodes (?h1 ! x))"
    by (simp only: remove_node_length)
  moreover have "replaceWith t n h = ?h3[t := (?h3 ! t)\<lparr>parentNode := None\<rparr>]"
    using assms by (simp add: replaceWith_def Let_def)
  ultimately show ?thesis by simp
qed

lemma replaceWith_parentNode_eq:
  assumes "parentNode (h ! t) = Some p" and "n \<noteq> t"
  shows "parentNode (replaceWith t n h ! x) =
     (if x = t \<and> t < length h then None
      else if x = n \<and> n < length h then Some p else parentNode (h ! x))"
proof -
  let ?h1 = "remove_node n h"
  let ?h2 = "?h1[p := (?h1 ! p)\<lparr>childNodes :=
                        map (\<lambda>x. if x = Node t then Node n else x) (childNodes (?h1 ! p))\<rparr>]"
  let ?h3 = "?h2[n := (?h2 ! n)\<lparr>parentNode := Some p\<rparr>]"
  have l2: "length ?h2 = length h" and l3: "length ?h3 = length h"
    by (simp_all add: remove_node_length)
  have "parentNode (?h3[t := (?h3 ! t)\<lparr>parentNode := None\<rparr>] ! x) =
      (if t = x \<and> x < length ?h3 then None else parentNode (?h3 ! x))"
    by (rule nth_update_parentNode)
  also have "parentNode (?h3 ! x) =
      (if n = x \<and> x < length ?h2 then Some p else parentNode (?h2 ! x))"
    by (rule nth_update_parentNode)
  also have "parentNode (?h2 ! x) = parentNode (?h1 ! x)"
    by (rule nth_update_field [where g = "\<lambda>e. e\<lparr>childNodes :=
        map (\<lambda>x. if x = Node t then Node n else x) (childNodes e)\<rparr>"]) simp
  finally have "parentNode (?h3[t := (?h3 ! t)\<lparr>parentNode := None\<rparr>] ! x) =
      (if t = x \<and> x < length h then None
       else if n = x \<and> x < length h then Some p else parentNode (?h1 ! x))"
    by (simp only: l2 l3)
  moreover have "replaceWith t n h = ?h3[t := (?h3 ! t)\<lparr>parentNode := None\<rparr>]"
    using assms by (simp add: replaceWith_def Let_def)
  ultimately show ?thesis
    by (auto simp only: remove_node_parentNode_eq split: if_splits)
qed

lemma frame_refl: "frame R X h h"
  by (simp add: frame_def)

lemma frame_mono: "frame R X h h' \<Longrightarrow> R \<subseteq> R' \<Longrightarrow> X \<subseteq> X' \<Longrightarrow> frame R' X' h h'"
  unfolding frame_def by (auto simp: subset_iff)

lemma frame_trans:
  assumes a: "frame R X h h1" and b: "frame R X h1 h2"
  shows "frame R X h h2"
  unfolding frame_def
proof (intro conjI allI impI)
  show "length h \<le> length h2" using a b by (simp add: frame_def)
next
  fix x assume x: "x < length h"
  then have x1: "x < length h1" using a by (simp add: frame_def)
  show "tagName (h2 ! x) = tagName (h ! x)" using a b x x1 by (simp add: frame_def)
  show "attributes (h2 ! x) = attributes (h ! x)" using a b x x1 by (simp add: frame_def)
  show "style (h2 ! x) = style (h ! x)" using a b x x1 by (simp add: frame_def)
  show "parentNode (h2 ! x) = parentNode (h ! x)" if "x \<notin> R"
    using a b x x1 that by (simp add: frame_def)
  show "subseq (childNodes (h2 ! x)) (childNodes (h ! x))" if "x \<notin> X"
  proof -
    have "subseq (childNodes (h2 ! x)) (childNodes (h1 ! x))"
      using b x1 that by (simp add: frame_def)
    moreover have "subseq (childNodes (h1 ! x)) (childNodes (h ! x))"
      using a x that by (simp add: frame_def)
    ultimately show ?thesis by (rule subseq_order.trans)
  qed
  show "childNodes (h2 ! x) = childNodes (h ! x)"
    if "x \<notin> X" and "\<forall>c\<in>R. Node c \<notin> set (childNodes (h ! x))"
  proof -
    have 1: "childNodes (h1 ! x) = childNodes (h ! x)"
      using a x that by (simp add: frame_def)
    then have "\<forall>c\<in>R. Node c \<notin> set (childNodes (h1 ! x))" using that by simp
    then have "childNodes (h2 ! x) = childNodes (h1 ! x)"
      using b x1 that by (simp add: frame_def)
    then show ?thesis using 1 by simp
  qed
qed

lemma frame_trans':
  "frame R1 X1 h h1 \<Longrightarrow> frame R2 X2 h1 h2 \<Longrightarrow> frame (R1 \<union> R2) (X1 \<union> X2) h h2"
  by (rule frame_trans [where ?h1.0 = h1]) (erule frame_mono; simp)+

lemma frame_createElement: "frame {} {} h (snd (createElement tag h))"
  by (simp add: frame_def createElement_length createElement_old)

lemma subseq_removeAll: "subseq (removeAll a xs) xs"
  by (simp add: removeAll_filter_not_eq)

lemma frame_node_append: "frame {c} {p} h (node_append p c h)"
  unfolding frame_def
  by (simp add: node_append_length node_append_tagName node_append_attributes
      node_append_style node_append_parentNode_eq node_append_childNodes_eq
      remove_node_childNodes_eq subseq_removeAll)

lemma frame_set_innerHTML:
  "childNodes (h ! r) = [] \<Longrightarrow> frame {} {r} h (set_innerHTML r s h)"
  unfolding frame_def
  by (simp add: set_innerHTML_length set_innerHTML_tagName set_innerHTML_attributes
      set_innerHTML_field set_innerHTML_parentNode_eq set_innerHTML_childNodes_eq)

lemma frame_length: "frame R X h h' \<Longrightarrow> length h \<le> length h'"
  by (simp add: frame_def)

lemma frame_tagName: "frame R X h h' \<Longrightarrow> x < length h \<Longrightarrow> tagName (h' ! x) = tagName (h ! x)"
  by (simp add: frame_def)

lemma frame_parentNode:
  "frame R X h h' \<Longrightarrow> x < length h \<Longrightarrow> x \<notin> R \<Longrightarrow> parentNode (h' ! x) = parentNode (h ! x)"
  by (simp add: frame_def)

lemma frame_childNodes:
  "frame R X h h' \<Longrightarrow> x < length h \<Longrightarrow> x \<notin> X \<Longrightarrow>
   \<forall>c\<in>R. Node c \<notin> set (childNodes (h ! x)) \<Longrightarrow> childNodes (h' ! x) = childNodes (h ! x)"
  by (simp add: frame_def)

text \<open>Appending a list of elements to a node.\<close>

lemma foldl_node_append:
  assumes "t < length h" and "\<forall>c\<in>set cs. c < length h \<and> c \<noteq> t \<and> Node c \<notin> set (childNodes (h ! t))"
    and "distinct cs"
  shows "frame (set cs) {t} h (foldl (\<lambda>h c. node_append t c h) h cs)
    \<and> length (foldl (\<lambda>h c. node_append t c h) h cs) = length h
    \<and> childNodes (foldl (\<lambda>h c. node_append t c h) h cs ! t) = childNodes (h ! t) @ map Node cs
    \<and> parentNode (foldl (\<lambda>h c. node_append t c h) h cs ! t) = parentNode (h ! t)"
  using assms
proof (induction cs arbitrary: h)
  case Nil
  then show ?case by (simp add: frame_refl)
next
  case (Cons c cs)
  let ?h1 = "node_append t c h"
  have l1: "length ?h1 = length h" by (rule node_append_length)
  have ch1: "childNodes (?h1 ! t) = childNodes (h ! t) @ [Node c]"
    using Cons.prems by (simp add: node_append_childNodes_parent)
  have p1: "parentNode (?h1 ! t) = parentNode (h ! t)"
    using Cons.prems by (simp add: node_append_parentNode_eq)
  have pre: "\<forall>d\<in>set cs. d < length ?h1 \<and> d \<noteq> t \<and> Node d \<notin> set (childNodes (?h1 ! t))"
    using Cons.prems by (auto simp: l1 ch1)
  have ih: "frame (set cs) {t} ?h1 (foldl (\<lambda>h c. node_append t c h) ?h1 cs)
    \<and> length (foldl (\<lambda>h c. node_append t c h) ?h1 cs) = length ?h1
    \<and> childNodes (foldl (\<lambda>h c. node_append t c h) ?h1 cs ! t) = childNodes (?h1 ! t) @ map Node cs
    \<and> parentNode (foldl (\<lambda>h c. node_append t c h) ?h1 cs ! t) = parentNode (?h1 ! t)"
    using Cons.prems pre by (intro Cons.IH) (simp_all add: l1)
  have "frame ({c} \<union> set cs) ({t} \<union> {t}) h (foldl (\<lambda>h c. node_append t c h) ?h1 cs)"
    using frame_node_append ih by (blast intro: frame_trans')
  then show ?case using ih by (simp add: l1 ch1 p1)
qed

lemma frame_drop_fresh:
  "frame R X h h' \<Longrightarrow> \<forall>x\<in>X. x \<notin> X' \<longrightarrow> length h \<le> x \<Longrightarrow> frame R X' h h'"
  unfolding frame_def by (auto simp: not_le [symmetric])

lemma node_append_orphan_childNodes:
  "parentNode (h ! t) = None \<Longrightarrow>
     childNodes (node_append p t h ! x) =
       (if p = x \<and> x < length h then childNodes (h ! x) @ [Node t] else childNodes (h ! x))"
  by (simp add: node_append_childNodes_eq remove_node_orphan)

lemma frame_then_append_orphan:
  assumes "frame R X h h2" and "parentNode (h2 ! t) = None" and "length h \<le> t"
  shows "frame R (insert p X) h (node_append p t h2)"
  using assms unfolding frame_def
  by (auto simp add: node_append_length node_append_tagName node_append_attributes
      node_append_style node_append_parentNode_eq node_append_orphan_childNodes)

lemma cellContent_refs: "Node c \<in> set (cellContent cell) \<longleftrightarrow> c \<in> set (cellRefs cell)"
  by (cases cell) (auto simp: markup_def)

lemma fillCell_spec:
  assumes "t < length h" and "childNodes (h ! t) = []"
    and "\<forall>c\<in>set (cellRefs cell). c < length h \<and> c \<noteq> t" and "distinct (cellRefs cell)"
  shows "frame (set (cellRefs cell)) {t} h (fillCell t cell h)
    \<and> length (fillCell t cell h) = length h
    \<and> childNodes (fillCell t cell h ! t) = cellContent cell
    \<and> parentNode (fillCell t cell h ! t) = parentNode (h ! t)"
proof (cases cell)
  case (Str s)
  then show ?thesis using assms
    by (simp add: fillCell_def frame_set_innerHTML set_innerHTML_length
        set_innerHTML_childNodes_eq set_innerHTML_parentNode_eq)
next
  case (Elems cs)
  then show ?thesis using assms foldl_node_append [of t h cs]
    by (simp add: fillCell_def)
next
  case (Elem e)
  then show ?thesis using assms foldl_node_append [of t h "[e]"]
    by (simp add: fillCell_def)
qed

lemma createCell_spec:
  assumes tr: "tr < length h"
    and refs: "\<forall>c\<in>set (cellRefs cell). c < length h \<and> Node c \<notin> set (childNodes (h ! tr))"
    and dist: "distinct (cellRefs cell)"
  shows "frame (set (cellRefs cell)) {tr} h (createCell idx tr h cell)
    \<and> length (createCell idx tr h cell) = Suc (length h)
    \<and> tagName (createCell idx tr h cell ! length h) = (if idx = 0 then js ''th'' else js ''td'')
    \<and> childNodes (createCell idx tr h cell ! length h) = cellContent cell
    \<and> parentNode (createCell idx tr h cell ! length h) = Some tr
    \<and> childNodes (createCell idx tr h cell ! tr) = childNodes (h ! tr) @ [Node (length h)]"
proof -
  let ?tag = "if idx = 0 then js ''th'' else js ''td''"
  let ?t = "length h"
  let ?h1 = "snd (createElement ?tag h)"
  let ?h2 = "fillCell ?t cell ?h1"
  let ?h3 = "node_append tr ?t ?h2"
  have eq: "createCell idx tr h cell = ?h3"
    by (simp add: createCell_def appendChild_def createElement_def Let_def)
  have l1: "length ?h1 = Suc (length h)" by (rule createElement_length)
  have new: "childNodes (?h1 ! ?t) = []" "parentNode (?h1 ! ?t) = None" "tagName (?h1 ! ?t) = ?tag"
    by (simp_all only: createElement_new element.simps)
  have fill: "frame (set (cellRefs cell)) {?t} ?h1 ?h2 \<and> length ?h2 = length ?h1
    \<and> childNodes (?h2 ! ?t) = cellContent cell \<and> parentNode (?h2 ! ?t) = parentNode (?h1 ! ?t)"
    using refs dist new(1) by (intro fillCell_spec) (auto simp: l1)
  then have l2: "length ?h2 = Suc (length h)" and c2: "childNodes (?h2 ! ?t) = cellContent cell"
    and p2: "parentNode (?h2 ! ?t) = None"
    by (simp_all add: l1 new)
  have f01: "frame ({} \<union> set (cellRefs cell)) ({} \<union> {?t}) h ?h2"
    using frame_createElement fill by (blast intro: frame_trans')
  then have "frame (set (cellRefs cell)) {?t} h ?h2" by simp
  then have f02: "frame (set (cellRefs cell)) {} h ?h2"
    by (rule frame_drop_fresh) simp
  have f03: "frame (set (cellRefs cell)) {tr} h ?h3"
    using frame_then_append_orphan [OF f02 p2, of tr] by simp
  have "frame (set (cellRefs cell)) {?t} ?h1 ?h2" using fill by simp
  then have "tagName (?h2 ! ?t) = tagName (?h1 ! ?t)"
    by (rule frame_tagName) (simp add: l1)
  then have t2: "tagName (?h2 ! ?t) = ?tag"
    by (simp only: new(3))
  have tr1: "childNodes (?h1 ! tr) = childNodes (h ! tr)"
    using tr by (simp add: createElement_old)
  have tr2: "childNodes (?h2 ! tr) = childNodes (h ! tr)"
    using frame_childNodes [of _ _ h ?h2 tr, OF f02] tr refs by simp
  show ?thesis
    unfolding eq
    using f03 tr
    by (simp add: node_append_length l2 node_append_tagName t2 node_append_parentNode_eq
        node_append_orphan_childNodes p2 c2 tr2)
qed


section \<open>Properties of the table builder\<close>

lemma foldl_createCell:
  assumes "tr < length h"
    and "\<forall>c\<in>set (rowRefs row). c < length h \<and> Node c \<notin> set (childNodes (h ! tr))"
    and "distinct (rowRefs row)"
  shows "frame (set (rowRefs row)) {tr} h (foldl (createCell idx tr) h row)
    \<and> length (foldl (createCell idx tr) h row) = length h + length row
    \<and> childNodes (foldl (createCell idx tr) h row ! tr) =
        childNodes (h ! tr) @ map Node [length h..<length h + length row]
    \<and> (\<forall>j<length row.
          tagName (foldl (createCell idx tr) h row ! (length h + j)) =
            (if idx = 0 then js ''th'' else js ''td'')
          \<and> childNodes (foldl (createCell idx tr) h row ! (length h + j)) = cellContent (row ! j))"
  using assms
proof (induction row arbitrary: h)
  case Nil
  then show ?case by (simp add: frame_refl rowRefs_def)
next
  case (Cons cell row)
  let ?tag = "if idx = 0 then js ''th'' else js ''td''"
  let ?h1 = "createCell idx tr h cell"
  let ?h' = "foldl (createCell idx tr) ?h1 row"
  have split: "rowRefs (cell # row) = cellRefs cell @ rowRefs row"
    by (simp add: rowRefs_def)
  have c: "frame (set (cellRefs cell)) {tr} h ?h1
    \<and> length ?h1 = Suc (length h)
    \<and> tagName (?h1 ! length h) = ?tag
    \<and> childNodes (?h1 ! length h) = cellContent cell
    \<and> parentNode (?h1 ! length h) = Some tr
    \<and> childNodes (?h1 ! tr) = childNodes (h ! tr) @ [Node (length h)]"
    using Cons.prems by (intro createCell_spec) (simp_all add: split)
  then have l1: "length ?h1 = Suc (length h)"
    and ch1: "childNodes (?h1 ! tr) = childNodes (h ! tr) @ [Node (length h)]"
    by simp_all
  have pre: "\<forall>c\<in>set (rowRefs row). c < length ?h1 \<and> Node c \<notin> set (childNodes (?h1 ! tr))"
    using Cons.prems(2) by (auto simp: split l1 ch1 intro: less_SucI)
  have ih: "frame (set (rowRefs row)) {tr} ?h1 ?h'
    \<and> length ?h' = length ?h1 + length row
    \<and> childNodes (?h' ! tr) = childNodes (?h1 ! tr) @ map Node [length ?h1..<length ?h1 + length row]
    \<and> (\<forall>j<length row. tagName (?h' ! (length ?h1 + j)) = ?tag
          \<and> childNodes (?h' ! (length ?h1 + j)) = cellContent (row ! j))"
    using Cons.prems pre by (intro Cons.IH) (simp_all add: l1 split)
  have fr: "frame (set (rowRefs row)) {tr} ?h1 ?h'" using ih by simp
  have f: "frame (set (rowRefs (cell # row))) {tr} h ?h'"
    using frame_trans' [of "set (cellRefs cell)" "{tr}" h ?h1 "set (rowRefs row)" "{tr}" ?h']
      c fr by (simp add: split)
  have first_tag: "tagName (?h' ! length h) = ?tag"
    using frame_tagName [OF fr, of "length h"] c by (simp add: l1)
  have "\<forall>d\<in>set (rowRefs row). Node d \<notin> set (childNodes (?h1 ! length h))"
    using Cons.prems(3) c by (auto simp: split cellContent_refs)
  then have first_ch: "childNodes (?h' ! length h) = cellContent cell"
    using frame_childNodes [OF fr, of "length h"] Cons.prems(1) c by (simp add: l1)
  have cells: "tagName (?h' ! (length h + j)) = ?tag
      \<and> childNodes (?h' ! (length h + j)) = cellContent ((cell # row) ! j)"
    if "j < length (cell # row)" for j
  proof (cases j)
    case 0
    then show ?thesis using first_tag first_ch by simp
  next
    case (Suc k)
    then show ?thesis using ih that by (simp add: l1)
  qed
  have up: "length h # [Suc (length h)..<Suc (length h) + length row]
      = [length h..<length h + length (cell # row)]"
    by (subst (2) upt_conv_Cons) simp_all
  have len: "length ?h' = length h + length (cell # row)"
    using ih by (simp add: l1)
  have "childNodes (?h' ! tr) = (childNodes (h ! tr) @ [Node (length h)])
      @ map Node [Suc (length h)..<Suc (length h) + length row]"
    using ih by (simp only: l1 ch1)
  also have "\<dots> = childNodes (h ! tr)
      @ map Node (length h # [Suc (length h)..<Suc (length h) + length row])"
    by simp
  finally have chtr: "childNodes (?h' ! tr) =
      childNodes (h ! tr) @ map Node [length h..<length h + length (cell # row)]"
    by (simp only: up)
  show ?case
    unfolding foldl_Cons
    using f len chtr cells by blast
qed

lemma refsOf_map_Node: "refsOf (map Node ts) = Some ts"
  by (induction ts) simp_all

lemma refsOf_Some: "refsOf xs = Some ts \<Longrightarrow> xs = map Node ts"
proof (induction xs arbitrary: ts)
  case Nil
  then show ?case by simp
next
  case (Cons x xs)
  then show ?case by (cases x) auto
qed

lemma createRow_spec:
  assumes "table < length h"
    and "\<forall>c\<in>set (rowRefs row). c < length h \<and> Node c \<notin> set (childNodes (h ! table))"
    and "distinct (rowRefs row)"
  shows "frame (set (rowRefs row)) {table} h (createRow table h (row, idx))
    \<and> length (createRow table h (row, idx)) = Suc (length h + length row)
    \<and> childNodes (createRow table h (row, idx) ! table) = childNodes (h ! table) @ [Node (length h)]
    \<and> childNodes (createRow table h (row, idx) ! length h) =
        map Node [Suc (length h)..<Suc (length h) + length row]
    \<and> parentNode (createRow table h (row, idx) ! length h) = Some table
    \<and> cellsOf (createRow table h (row, idx)) (length h) = Some (rowSpec idx row)"
proof -
  let ?tr = "length h"
  let ?h1 = "snd (createElement (js ''tr'') h)"
  let ?h2 = "foldl (createCell idx ?tr) ?h1 row"
  let ?h3 = "node_append table ?tr ?h2"
  let ?tag = "if idx = 0 then js ''th'' else js ''td''"
  have eq: "createRow table h (row, idx) = ?h3"
    by (simp add: createRow_def appendChild_def createElement_def Let_def)
  have l1: "length ?h1 = Suc (length h)" by (rule createElement_length)
  have new: "childNodes (?h1 ! ?tr) = []" "parentNode (?h1 ! ?tr) = None"
    "tagName (?h1 ! ?tr) = js ''tr''"
    by (simp_all only: createElement_new element.simps)
  have fold: "frame (set (rowRefs row)) {?tr} ?h1 ?h2
    \<and> length ?h2 = length ?h1 + length row
    \<and> childNodes (?h2 ! ?tr) = childNodes (?h1 ! ?tr) @ map Node [length ?h1..<length ?h1 + length row]
    \<and> (\<forall>j<length row. tagName (?h2 ! (length ?h1 + j)) = ?tag
          \<and> childNodes (?h2 ! (length ?h1 + j)) = cellContent (row ! j))"
    using assms new(1) by (intro foldl_createCell) (auto simp: l1)
  then have fr12: "frame (set (rowRefs row)) {?tr} ?h1 ?h2"
    and l2: "length ?h2 = Suc (length h + length row)"
    and ch2: "childNodes (?h2 ! ?tr) = map Node [Suc (length h)..<Suc (length h) + length row]"
    and cells2: "\<And>j. j < length row \<Longrightarrow> tagName (?h2 ! (Suc (length h) + j)) = ?tag
          \<and> childNodes (?h2 ! (Suc (length h) + j)) = cellContent (row ! j)"
    by (simp_all add: l1 new del: upt_Suc)
  have notin: "?tr \<notin> set (rowRefs row)" using assms(2) by auto
  have p2: "parentNode (?h2 ! ?tr) = None"
    using frame_parentNode [OF fr12, of ?tr] notin new(2) by (simp add: l1)
  have t2: "tagName (?h2 ! ?tr) = js ''tr''"
    using frame_tagName [OF fr12, of ?tr] new(3) by (simp add: l1)
  have "frame ({} \<union> set (rowRefs row)) ({} \<union> {?tr}) h ?h2"
    using frame_createElement fr12 by (rule frame_trans')
  then have "frame (set (rowRefs row)) {?tr} h ?h2" by simp
  then have f02: "frame (set (rowRefs row)) {} h ?h2"
    by (rule frame_drop_fresh) simp
  have f03: "frame (set (rowRefs row)) {table} h ?h3"
    using frame_then_append_orphan [OF f02 p2, of table] by simp
  have tab2: "childNodes (?h2 ! table) = childNodes (h ! table)"
    using frame_childNodes [OF f02, of table] assms by simp
  have ne: "table \<noteq> ?tr" using assms(1) by simp
  have ch3: "childNodes (?h3 ! x) =
      (if table = x \<and> x < length ?h2 then childNodes (?h2 ! x) @ [Node ?tr] else childNodes (?h2 ! x))"
    for x using p2 by (rule node_append_orphan_childNodes)
  have l3: "length ?h3 = Suc (length h + length row)"
    by (simp add: node_append_length l2)
  have cellrows: "map (\<lambda>t. (tagName (?h3 ! t), childNodes (?h3 ! t)))
      [Suc (length h)..<Suc (length h) + length row] = rowSpec idx row"
  proof (rule nth_equalityI)
    show "length (map (\<lambda>t. (tagName (?h3 ! t), childNodes (?h3 ! t)))
      [Suc (length h)..<Suc (length h) + length row]) = length (rowSpec idx row)"
      by (simp add: rowSpec_def del: upt_Suc)
  next
    fix j assume "j < length (map (\<lambda>t. (tagName (?h3 ! t), childNodes (?h3 ! t)))
      [Suc (length h)..<Suc (length h) + length row])"
    then have j: "j < length row" by (simp del: upt_Suc)
    have "table \<noteq> Suc (length h + j)" using assms(1) by simp
    then show "map (\<lambda>t. (tagName (?h3 ! t), childNodes (?h3 ! t)))
      [Suc (length h)..<Suc (length h) + length row] ! j = rowSpec idx row ! j"
      using j cells2 [OF j] by (simp add: rowSpec_def node_append_tagName ch3 del: upt_Suc)
  qed
  have cells3: "cellsOf ?h3 ?tr = Some (rowSpec idx row)"
    using ne cellrows
    by (simp add: cellsOf_def l3 node_append_tagName t2 ch3 ch2 refsOf_map_Node list_all_iff
        del: upt_Suc)
  show ?thesis
    unfolding eq
    using f03 cells3 assms(1) ne
    by (simp add: l3 ch3 l2 tab2 ch2 node_append_parentNode_eq del: upt_Suc)
qed

lemma rowSpec_refs:
  "(tg, items) \<in> set (rowSpec idx row) \<Longrightarrow> Node c \<in> set items \<Longrightarrow> c \<in> set (rowRefs row)"
  by (auto simp: rowSpec_def rowRefs_def cellContent_refs)

lemma cellsOf_frame:
  assumes fr: "frame R X h h'" and cs: "cellsOf h tr = Some cs" and tr: "tr \<notin> X"
    and kids: "\<forall>t. Node t \<in> set (childNodes (h ! tr)) \<longrightarrow> t \<notin> X \<and> t \<notin> R"
    and items: "\<forall>(tg, items)\<in>set cs. \<forall>c\<in>R. Node c \<notin> set items"
  shows "cellsOf h' tr = Some cs"
proof -
  from cs obtain ts where trl: "tr < length h" and tg: "tagName (h ! tr) = js ''tr''"
    and ts: "refsOf (childNodes (h ! tr)) = Some ts" and inr: "\<forall>t\<in>set ts. t < length h"
    and cseq: "cs = map (\<lambda>t. (tagName (h ! t), childNodes (h ! t))) ts"
    by (auto simp: cellsOf_def list_all_iff split: if_splits option.splits)
  have ch: "childNodes (h ! tr) = map Node ts" using ts by (rule refsOf_Some)
  have l: "length h \<le> length h'" using fr by (rule frame_length)
  have "\<forall>c\<in>R. Node c \<notin> set (childNodes (h ! tr))" using kids by auto
  then have ch': "childNodes (h' ! tr) = map Node ts"
    using frame_childNodes [OF fr trl tr] ch by simp
  have tg': "tagName (h' ! tr) = js ''tr''"
    using frame_tagName [OF fr trl] tg by simp
  have same: "(tagName (h' ! t), childNodes (h' ! t)) = (tagName (h ! t), childNodes (h ! t))"
    if "t \<in> set ts" for t
  proof -
    have tl: "t < length h" using inr that by simp
    have "Node t \<in> set (childNodes (h ! tr))" using that ch by simp
    then have tX: "t \<notin> X" using kids by simp
    have "(tagName (h ! t), childNodes (h ! t)) \<in> set cs" using that cseq by auto
    then have "\<forall>c\<in>R. Node c \<notin> set (childNodes (h ! t))" using items by auto
    then have "childNodes (h' ! t) = childNodes (h ! t)"
      using frame_childNodes [OF fr tl tX] by simp
    then show ?thesis using frame_tagName [OF fr tl] by simp
  qed
  have "map (\<lambda>t. (tagName (h' ! t), childNodes (h' ! t))) ts = cs"
    unfolding cseq using same by (intro map_cong) simp_all
  then show ?thesis
    using trl l inr by (auto simp: cellsOf_def tg' ch' refsOf_map_Node list_all_iff)
qed

lemma foldl_createRow:
  assumes "table < length h"
    and "\<forall>c\<in>set (pairsRefs ris). c < length h \<and> Node c \<notin> set (childNodes (h ! table))"
    and "distinct (pairsRefs ris)"
  shows "frame (set (pairsRefs ris)) {table} h (foldl (createRow table) h ris)
    \<and> (\<exists>trs. childNodes (foldl (createRow table) h ris ! table) =
           childNodes (h ! table) @ map Node trs
         \<and> (\<forall>t\<in>set trs. length h \<le> t
               \<and> (\<forall>c. Node c \<in> set (childNodes (foldl (createRow table) h ris ! t))
                      \<longrightarrow> length h \<le> c))
         \<and> map (cellsOf (foldl (createRow table) h ris)) trs =
             map (\<lambda>ri. Some (rowSpec (snd ri) (fst ri))) ris)"
  using assms
proof (induction ris arbitrary: h)
  case Nil
  then show ?case by (simp add: frame_refl pairsRefs_def)
next
  case (Cons ri ris)
  obtain row idx where ri: "ri = (row, idx)" by (cases ri)
  let ?h1 = "createRow table h (row, idx)"
  let ?h' = "foldl (createRow table) ?h1 ris"
  have split: "pairsRefs (ri # ris) = rowRefs row @ pairsRefs ris"
    by (simp add: pairsRefs_def ri)
  have r: "frame (set (rowRefs row)) {table} h ?h1
    \<and> length ?h1 = Suc (length h + length row)
    \<and> childNodes (?h1 ! table) = childNodes (h ! table) @ [Node (length h)]
    \<and> childNodes (?h1 ! length h) = map Node [Suc (length h)..<Suc (length h) + length row]
    \<and> parentNode (?h1 ! length h) = Some table
    \<and> cellsOf ?h1 (length h) = Some (rowSpec idx row)"
    using Cons.prems by (intro createRow_spec) (simp_all add: split)
  then have l1: "length ?h1 = Suc (length h + length row)"
    and ch1: "childNodes (?h1 ! table) = childNodes (h ! table) @ [Node (length h)]"
    and kids1: "childNodes (?h1 ! length h) = map Node [Suc (length h)..<Suc (length h) + length row]"
    and cells1: "cellsOf ?h1 (length h) = Some (rowSpec idx row)"
    and fr1: "frame (set (rowRefs row)) {table} h ?h1"
    by simp_all
  have pre: "\<forall>c\<in>set (pairsRefs ris). c < length ?h1 \<and> Node c \<notin> set (childNodes (?h1 ! table))"
    using Cons.prems(2) by (auto simp: split l1 ch1 intro: less_SucI trans_less_add1)
  have ih: "frame (set (pairsRefs ris)) {table} ?h1 ?h'
    \<and> (\<exists>trs. childNodes (?h' ! table) = childNodes (?h1 ! table) @ map Node trs
         \<and> (\<forall>t\<in>set trs. length ?h1 \<le> t
               \<and> (\<forall>c. Node c \<in> set (childNodes (?h' ! t)) \<longrightarrow> length ?h1 \<le> c))
         \<and> map (cellsOf ?h') trs = map (\<lambda>ri. Some (rowSpec (snd ri) (fst ri))) ris)"
    using Cons.prems pre by (intro Cons.IH) (simp_all add: l1 split)
  then have fr: "frame (set (pairsRefs ris)) {table} ?h1 ?h'" by simp
  from ih obtain trs where trs: "childNodes (?h' ! table) = childNodes (?h1 ! table) @ map Node trs"
    "\<forall>t\<in>set trs. length ?h1 \<le> t
       \<and> (\<forall>c. Node c \<in> set (childNodes (?h' ! t)) \<longrightarrow> length ?h1 \<le> c)"
    "map (cellsOf ?h') trs = map (\<lambda>ri. Some (rowSpec (snd ri) (fst ri))) ris"
    by blast
  have f: "frame (set (pairsRefs (ri # ris))) {table} h ?h'"
    using frame_trans' [OF fr1 fr] by (simp add: split)
  have old: "\<forall>c\<in>set (pairsRefs ris). c < length h" using Cons.prems(2) by (simp add: split)
  have kids: "\<forall>t. Node t \<in> set (childNodes (?h1 ! length h)) \<longrightarrow>
      t \<notin> {table} \<and> t \<notin> set (pairsRefs ris)"
    using Cons.prems(1) old unfolding kids1 by (auto simp del: upt_Suc)
  have items: "\<forall>(tg, items)\<in>set (rowSpec idx row). \<forall>c\<in>set (pairsRefs ris). Node c \<notin> set items"
    using Cons.prems(3) by (auto simp: split dest: rowSpec_refs)
  have first: "cellsOf ?h' (length h) = Some (rowSpec idx row)"
    using fr cells1 _ kids items by (rule cellsOf_frame) (use Cons.prems(1) in simp)
  have "\<forall>c\<in>set (pairsRefs ris). Node c \<notin> set (childNodes (?h1 ! length h))"
    using kids by blast
  then have kids': "childNodes (?h' ! length h) = childNodes (?h1 ! length h)"
    using frame_childNodes [OF fr, of "length h"] Cons.prems(1) by (simp add: l1)
  have "childNodes (?h' ! table) = childNodes (h ! table) @ map Node (length h # trs)"
    by (simp add: trs(1) ch1)
  moreover have "\<forall>t\<in>set (length h # trs). length h \<le> t
       \<and> (\<forall>c. Node c \<in> set (childNodes (?h' ! t)) \<longrightarrow> length h \<le> c)"
  proof (intro ballI conjI allI impI)
    fix t assume "t \<in> set (length h # trs)"
    then show "length h \<le> t" using trs(2) by (auto simp: l1)
  next
    fix t c assume t: "t \<in> set (length h # trs)" and c: "Node c \<in> set (childNodes (?h' ! t))"
    show "length h \<le> c"
    proof (cases "t = length h")
      case True
      have "childNodes (?h' ! t) = map Node [Suc (length h)..<Suc (length h) + length row]"
        unfolding True kids' kids1 ..
      then have "c \<in> set [Suc (length h)..<Suc (length h) + length row]"
        using c by (auto simp del: upt_Suc)
      then show ?thesis by (simp del: upt_Suc)
    next
      case False
      then have "t \<in> set trs" using t by simp
      then have "length ?h1 \<le> c" using trs(2) c by blast
      then show ?thesis by (simp add: l1)
    qed
  qed
  moreover have "map (cellsOf ?h') (length h # trs) =
      map (\<lambda>ri. Some (rowSpec (snd ri) (fst ri))) (ri # ris)"
    using first trs(3) by (simp add: ri)
  ultimately show ?case
    unfolding foldl_Cons ri using f ri by blast
qed

lemma pairsRefs_zip: "length is = length data \<Longrightarrow> pairsRefs (zip data is) = dataRefs data"
proof -
  assume "length is = length data"
  then have "map fst (zip data is) = data" by simp
  then have "map (\<lambda>ri. rowRefs (fst ri)) (zip data is) = map rowRefs data"
    by (metis (no_types, lifting) map_map map_eq_conv o_apply)
  then show ?thesis by (simp add: pairsRefs_def dataRefs_def rowRefs_def [abs_def])
qed

lemma those_map_Some: "map f xs = map Some ys \<Longrightarrow> those (map f xs) = Some ys"
proof (induction xs arbitrary: ys)
  case Nil
  then show ?case by simp
next
  case (Cons x xs)
  then show ?case by (cases ys) auto
qed

lemma createTable_spec:
  assumes "\<forall>c\<in>set (dataRefs data). c < length h" and "distinct (dataRefs data)"
  shows "fst (createTable data h) = length h
    \<and> frame (set (dataRefs data)) {} h (snd (createTable data h))
    \<and> length h < length (snd (createTable data h))
    \<and> parentNode (snd (createTable data h) ! length h) = None
    \<and> (\<forall>t. Node t \<in> set (childNodes (snd (createTable data h) ! length h)) \<longrightarrow>
          length h \<le> t
          \<and> (\<forall>c. Node c \<in> set (childNodes (snd (createTable data h) ! t)) \<longrightarrow> length h \<le> c))
    \<and> tableRows (snd (createTable data h)) (length h) = Some (tableSpec data)"
proof -
  let ?T = "length h"
  let ?ris = "zip data [0..<length data]"
  let ?h1 = "snd (createElement (js ''table'') h)"
  let ?h' = "foldl (createRow ?T) ?h1 ?ris"
  have eq: "createTable data h = (?T, ?h')"
    by (simp add: createTable_def createElement_def Let_def)
  have refs: "pairsRefs ?ris = dataRefs data" by (rule pairsRefs_zip) simp
  have l1: "length ?h1 = Suc (length h)" by (rule createElement_length)
  have new: "childNodes (?h1 ! ?T) = []" "parentNode (?h1 ! ?T) = None"
    "tagName (?h1 ! ?T) = js ''table''"
    by (simp_all only: createElement_new element.simps)
  have fold: "frame (set (pairsRefs ?ris)) {?T} ?h1 ?h'
    \<and> (\<exists>trs. childNodes (?h' ! ?T) = childNodes (?h1 ! ?T) @ map Node trs
         \<and> (\<forall>t\<in>set trs. length ?h1 \<le> t
               \<and> (\<forall>c. Node c \<in> set (childNodes (?h' ! t)) \<longrightarrow> length ?h1 \<le> c))
         \<and> map (cellsOf ?h') trs = map (\<lambda>ri. Some (rowSpec (snd ri) (fst ri))) ?ris)"
    using assms new(1) unfolding refs [symmetric]
    by (intro foldl_createRow) (auto simp: l1)
  then have fr: "frame (set (dataRefs data)) {?T} ?h1 ?h'" by (simp add: refs)
  from fold obtain trs where trs: "childNodes (?h' ! ?T) = map Node trs"
    "map (cellsOf ?h') trs = map (\<lambda>ri. Some (rowSpec (snd ri) (fst ri))) ?ris"
    and fresh: "\<forall>t\<in>set trs. length ?h1 \<le> t
               \<and> (\<forall>c. Node c \<in> set (childNodes (?h' ! t)) \<longrightarrow> length ?h1 \<le> c)"
    by (auto simp: new)
  have fresh': "\<forall>t. Node t \<in> set (childNodes (?h' ! ?T)) \<longrightarrow>
          length h \<le> t \<and> (\<forall>c. Node c \<in> set (childNodes (?h' ! t)) \<longrightarrow> length h \<le> c)"
    using fresh unfolding trs(1) l1 by (auto dest: Suc_leD)
  have notin: "?T \<notin> set (dataRefs data)" using assms(1) by auto
  have l: "length ?h1 \<le> length ?h'" using fr by (rule frame_length)
  have p: "parentNode (?h' ! ?T) = None"
    using frame_parentNode [OF fr, of ?T] notin new(2) by (simp add: l1)
  have t: "tagName (?h' ! ?T) = js ''table''"
    using frame_tagName [OF fr, of ?T] new(3) by (simp add: l1)
  have "frame ({} \<union> set (dataRefs data)) ({} \<union> {?T}) h ?h'"
    using frame_createElement fr by (rule frame_trans')
  then have "frame (set (dataRefs data)) {?T} h ?h'" by simp
  then have f: "frame (set (dataRefs data)) {} h ?h'"
    by (rule frame_drop_fresh) simp
  have "map (cellsOf ?h') trs = map Some (tableSpec data)"
    using trs(2) by (simp add: tableSpec_def)
  then have "those (map (cellsOf ?h') trs) = Some (tableSpec data)"
    by (rule those_map_Some)
  then have rows: "tableRows ?h' ?T = Some (tableSpec data)"
    using l by (simp add: tableRows_def t trs(1) refsOf_map_Node l1)
  show ?thesis
    unfolding eq using f p rows l fresh' by (simp add: l1)
qed

lemma those_Some: "those xs = Some ys \<Longrightarrow> xs = map Some ys"
proof (induction xs arbitrary: ys)
  case Nil
  then show ?case by simp
next
  case (Cons x xs)
  then show ?case by (cases x) (auto split: option.splits)
qed

lemma tableRows_stable:
  assumes rows: "tableRows h T = Some rows" and len: "length h \<le> length h'"
    and same: "\<forall>x<length h. N \<le> x \<longrightarrow>
        tagName (h' ! x) = tagName (h ! x) \<and> childNodes (h' ! x) = childNodes (h ! x)"
    and T: "N \<le> T"
    and new: "\<forall>t. Node t \<in> set (childNodes (h ! T)) \<longrightarrow>
        N \<le> t \<and> (\<forall>c. Node c \<in> set (childNodes (h ! t)) \<longrightarrow> N \<le> c)"
  shows "tableRows h' T = Some rows"
proof -
  from rows obtain trs where Tl: "T < length h" and tg: "tagName (h ! T) = js ''table''"
    and trs: "refsOf (childNodes (h ! T)) = Some trs"
    and th: "those (map (cellsOf h) trs) = Some rows"
    by (auto simp: tableRows_def split: if_splits option.splits)
  have ch: "childNodes (h ! T) = map Node trs" using trs by (rule refsOf_Some)
  have T': "tagName (h' ! T) = js ''table''" "childNodes (h' ! T) = map Node trs"
    using same Tl T tg ch by simp_all
  have all: "map (cellsOf h) trs = map Some rows" using th by (rule those_Some)
  have "cellsOf h' tr = cellsOf h tr" if "tr \<in> set trs" for tr
  proof -
    have "cellsOf h tr \<in> set (map (cellsOf h) trs)" using that by simp
    then have "cellsOf h tr \<in> set (map Some rows)" by (simp only: all)
    then obtain cs where cs: "cellsOf h tr = Some cs" by auto
    then obtain ts where trl: "tr < length h" and ttg: "tagName (h ! tr) = js ''tr''"
      and ts: "refsOf (childNodes (h ! tr)) = Some ts" and inr: "\<forall>t\<in>set ts. t < length h"
      and cseq: "cs = map (\<lambda>t. (tagName (h ! t), childNodes (h ! t))) ts"
      by (auto simp: cellsOf_def list_all_iff split: if_splits option.splits)
    have tch: "childNodes (h ! tr) = map Node ts" using ts by (rule refsOf_Some)
    have "Node tr \<in> set (childNodes (h ! T))" using that ch by simp
    then have Ntr: "N \<le> tr" and Nts: "\<forall>t\<in>set ts. N \<le> t"
      using new tch by auto
    have tr': "tagName (h' ! tr) = js ''tr''" "childNodes (h' ! tr) = map Node ts"
      using same trl Ntr ttg tch by simp_all
    have "map (\<lambda>t. (tagName (h' ! t), childNodes (h' ! t))) ts = cs"
      unfolding cseq using same inr Nts by (intro map_cong) simp_all
    then have "cellsOf h' tr = Some cs"
      using trl len inr by (auto simp: cellsOf_def tr' refsOf_map_Node list_all_iff)
    then show ?thesis using cs by simp
  qed
  then have "map (cellsOf h') trs = map (cellsOf h) trs" by simp
  then have "those (map (cellsOf h') trs) = Some rows" using th by (simp only:)
  then show ?thesis
    using Tl len by (simp add: tableRows_def T' refsOf_map_Node)
qed

lemma createTable_fst: "fst (createTable data h) = length h"
  by (simp add: createTable_def createElement_def Let_def)


text \<open>
  Claim C5. For data whose element cells name nodes of the store, each once (appending
  an element moves it, so an element named twice would end in the cell that names it
  last), \<open>createTable\<close> returns a table that reads back as the data: one row per row of
  the data, in order, the cells of row 0 being \<open>th\<close> and all others \<open>td\<close>; a string cell
  holds the string as markup, a list cell its elements in order, an element cell that
  element. The rows \<open>[["H"], ["a"]]\<close> give a header cell with \<open>H\<close> and a body cell with \<open>a\<close>.
\<close>

theorem createTable_rows:
  assumes "\<forall>c\<in>set (dataRefs data). c < length h" and "distinct (dataRefs data)"
  shows "tableRows (snd (createTable data h)) (fst (createTable data h)) =
      Some (map (\<lambda>(row, index).
                  map (\<lambda>c. (if index = 0 then js ''th'' else js ''td'', cellContent c)) row)
              (zip data [0..<length data]))
    \<and> tableRows (snd (createTable [[Str (js ''H'')], [Str (js ''a'')]] h))
        (fst (createTable [[Str (js ''H'')], [Str (js ''a'')]] h)) =
      Some [[(js ''th'', [Markup (js ''H'')])], [(js ''td'', [Markup (js ''a'')])]]"
proof
  have "tableSpec data = map (\<lambda>(row, index).
      map (\<lambda>c. (if index = 0 then js ''th'' else js ''td'', cellContent c)) row)
      (zip data [0..<length data])"
    by (simp add: tableSpec_def rowSpec_def case_prod_beta)
  then show "tableRows (snd (createTable data h)) (fst (createTable data h)) =
      Some (map (\<lambda>(row, index).
                  map (\<lambda>c. (if index = 0 then js ''th'' else js ''td'', cellContent c)) row)
              (zip data [0..<length data]))"
    using createTable_spec [OF assms] by simp
next
  let ?d = "[[Str (js ''H'')], [Str (js ''a'')]]"
  have "\<forall>c\<in>set (dataRefs ?d). c < length h" and "distinct (dataRefs ?d)"
    by (simp_all add: dataRefs_def)
  then have "tableRows (snd (createTable ?d h)) (fst (createTable ?d h)) = Some (tableSpec ?d)"
    using createTable_spec [of ?d h] by simp
  moreover have "tableSpec ?d =
      [[(js ''th'', [Markup (js ''H'')])], [(js ''td'', [Markup (js ''a'')])]]"
    by (simp add: tableSpec_def rowSpec_def markup_def js_def)
  ultimately show "tableRows (snd (createTable ?d h)) (fst (createTable ?d h)) =
      Some [[(js ''th'', [Markup (js ''H'')])], [(js ''td'', [Markup (js ''a'')])]]"
    by simp
qed

theorem createTable_rows_witness:
  "tableRows (snd (createTable [[Str (js ''H''), Elem 1], [Elems [2, 0], Str []]] sample_page))
     (fst (createTable [[Str (js ''H''), Elem 1], [Elems [2, 0], Str []]] sample_page)) =
   Some [[(js ''th'', [Markup (js ''H'')]), (js ''th'', [Node 1])],
         [(js ''td'', [Node 2, Node 0]), (js ''td'', [])]]"
  using createTable_rows [of "[[Str (js ''H''), Elem 1], [Elems [2, 0], Str []]]" sample_page]
  by (simp add: dataRefs_def sample_page_def markup_def js_def)



section \<open>Properties of the background-image resolver\<close>

lemma remove_url_open_id: "0x28 \<notin> set s \<Longrightarrow> remove_url_open s = s"
  by (induction s rule: remove_url_open.induct) (auto simp: js_def)

lemma remove_url_open_prefix: "remove_url_open (js ''url('' @ s) = remove_url_open s"
  by (simp add: js_def)

lemma replaceBackgroundByImg_none:
  "style_get css h tag (js ''background-image'') = [] \<Longrightarrow>
   replaceBackgroundByImg css tag h = (tag, h)"
  by (simp add: replaceBackgroundByImg_def)

lemma replaceBackgroundByImg_spec:
  assumes tag: "tag < length h" and url: "style_get css h tag (js ''background-image'') = url"
    and ne: "url \<noteq> []"
  shows "fst (replaceBackgroundByImg css tag h) = length h
    \<and> length (snd (replaceBackgroundByImg css tag h)) = Suc (length h)
    \<and> tagName (snd (replaceBackgroundByImg css tag h) ! length h) = js ''img''
    \<and> getAttribute (snd (replaceBackgroundByImg css tag h)) (length h) (js ''src'') =
        Some (filter (\<lambda>c. c \<noteq> 0x29) (filter (\<lambda>c. c \<noteq> 0x27) (remove_url_open url)))
    \<and> (\<forall>p. parentNode (h ! tag) = Some p \<and> p < length h \<longrightarrow>
          childNodes (snd (replaceBackgroundByImg css tag h) ! p) =
            map (\<lambda>x. if x = Node tag then Node (length h) else x) (childNodes (h ! p))
          \<and> Node tag \<notin> set (childNodes (snd (replaceBackgroundByImg css tag h) ! p))
          \<and> parentNode (snd (replaceBackgroundByImg css tag h) ! length h) = Some p
          \<and> parentNode (snd (replaceBackgroundByImg css tag h) ! tag) = None)"
proof -
  let ?src = "replaceAllUnit 0x29 [] (replaceAllUnit 0x27 [] (remove_url_open url))"
  let ?img = "length h"
  let ?h1 = "snd (createElement (js ''img'') h)"
  let ?h2 = "setAttribute ?img (js ''src'') ?src ?h1"
  let ?h3 = "replaceWith tag ?img ?h2"
  have eq: "replaceBackgroundByImg css tag h = (?img, ?h3)"
    using url ne by (simp add: replaceBackgroundByImg_def createElement_def Let_def)
  have l1: "length ?h1 = Suc (length h)" by (rule createElement_length)
  have l2: "length ?h2 = Suc (length h)" by (simp add: setAttribute_length l1)
  have new: "attributes (?h1 ! ?img) = []" "parentNode (?h1 ! ?img) = None"
    "tagName (?h1 ! ?img) = js ''img''"
    by (simp_all only: createElement_new element.simps)
  have tg: "tagName (?h3 ! ?img) = js ''img''"
    by (simp add: replaceWith_field setAttribute_field new)
  have at: "attributes (?h3 ! ?img) = [(js ''src'', ?src)]"
    by (simp add: replaceWith_field setAttribute_attributes l1 new)
  have p2img: "parentNode (?h2 ! ?img) = None"
    by (simp add: setAttribute_field new)
  have p2tag: "parentNode (?h2 ! tag) = parentNode (h ! tag)"
    using tag by (simp add: setAttribute_field createElement_old)
  have ch2: "childNodes (?h2 ! p) = childNodes (h ! p)" if "p < length h" for p
    using that by (simp add: setAttribute_field createElement_old)
  have neq: "?img \<noteq> tag" using tag by simp
  have par: "childNodes (?h3 ! p) =
        map (\<lambda>x. if x = Node tag then Node ?img else x) (childNodes (h ! p))
      \<and> Node tag \<notin> set (childNodes (?h3 ! p))
      \<and> parentNode (?h3 ! ?img) = Some p \<and> parentNode (?h3 ! tag) = None"
    if p: "parentNode (h ! tag) = Some p" "p < length h" for p
  proof -
    have pp: "parentNode (?h2 ! tag) = Some p" using p p2tag by simp
    have c: "childNodes (?h3 ! p) =
        map (\<lambda>x. if x = Node tag then Node ?img else x) (childNodes (h ! p))"
      using p by (simp add: replaceWith_childNodes_eq [OF pp neq] l2 remove_node_orphan p2img ch2)
    have "Node tag \<notin> set (map (\<lambda>x. if x = Node tag then Node ?img else x) (childNodes (h ! p)))"
      using neq by auto
    then show ?thesis
      using c tag by (simp add: replaceWith_parentNode_eq [OF pp neq] l2)
  qed
  have "getAttribute ?h3 ?img (js ''src'') = Some ?src"
    by (simp only: getAttribute_def at map_of.simps fst_conv snd_conv fun_upd_same)
  then have src: "getAttribute ?h3 ?img (js ''src'') =
      Some (filter (\<lambda>c. c \<noteq> 0x29) (filter (\<lambda>c. c \<noteq> 0x27) (remove_url_open url)))"
    by (simp only: replaceAllUnit_Nil)
  have l3: "length ?h3 = Suc (length h)" by (simp add: replaceWith_length l2)
  show ?thesis
    unfolding eq fst_conv snd_conv
    using l3 tg src par by blast
qed

lemma strip_apostrophes:
  assumes "0x27 \<notin> set u" "0x28 \<notin> set u" "0x29 \<notin> set u"
  shows "filter (\<lambda>c. c \<noteq> 0x29) (filter (\<lambda>c. c \<noteq> 0x27)
      (remove_url_open (js ''url('' @ [0x27] @ u @ [0x27] @ js '')''))) = u"
    and "filter (\<lambda>c. c \<noteq> 0x29) (filter (\<lambda>c. c \<noteq> 0x27)
      (remove_url_open (js ''url('' @ u @ js '')''))) = u"
proof -
  have "0x28 \<notin> set ([0x27] @ u @ [0x27] @ js '')'')" using assms by (simp add: js_def)
  then have 1: "remove_url_open (js ''url('' @ [0x27] @ u @ [0x27] @ js '')'')
      = [0x27] @ u @ [0x27] @ js '')''"
    unfolding remove_url_open_prefix by (rule remove_url_open_id)
  have "0x28 \<notin> set (u @ js '')'')" using assms by (simp add: js_def)
  then have 2: "remove_url_open (js ''url('' @ u @ js '')'') = u @ js '')''"
    unfolding remove_url_open_prefix by (rule remove_url_open_id)
  have f: "filter (\<lambda>c. c \<noteq> 0x29) (filter (\<lambda>c. c \<noteq> 0x27) u) = u"
    using assms by (auto simp add: filter_id_conv)
  show "filter (\<lambda>c. c \<noteq> 0x29) (filter (\<lambda>c. c \<noteq> 0x27)
      (remove_url_open (js ''url('' @ [0x27] @ u @ [0x27] @ js '')''))) = u"
    unfolding 1 using f by (simp add: js_def)
  show "filter (\<lambda>c. c \<noteq> 0x29) (filter (\<lambda>c. c \<noteq> 0x27)
      (remove_url_open (js ''url('' @ u @ js '')''))) = u"
    unfolding 2 using f by (simp add: js_def)
qed

text \<open>
  Claim C3. The three \<open>replace\<close> calls delete \<open>url(\<close>, the apostrophe and the closing
  parenthesis; the double quote is not among them. By \<open>strip_apostrophes\<close> the \<open>src\<close> of
  the new image is the URL when the style getter gives \<open>url('u')\<close> or \<open>url(u)\<close>. With a
  library that serialises as the standard says, the getter gives \<open>url("u")\<close>: on
  \<open>sample_page\<close>, whose banner declares \<open>url('http://x/y.png')\<close>, the banner is replaced
  by a new image in its place, and the \<open>src\<close> of the image is \<open>"http://x/y.png"\<close> with
  the double quotes around it, which is not the URL.
\<close>

theorem replaceBackgroundByImg_keeps_double_quotes:
  "style_get standard_cssom sample_page 2 (js ''background-image'') =
     js ''url('' @ [0x22] @ js ''http://x/y.png'' @ [0x22] @ js '')''
   \<and> fst (replaceBackgroundByImg standard_cssom 2 sample_page) = 3
   \<and> tagName (snd (replaceBackgroundByImg standard_cssom 2 sample_page) ! 3) = js ''img''
   \<and> childNodes (snd (replaceBackgroundByImg standard_cssom 2 sample_page) ! 0) =
       [Node 1, Node 3]
   \<and> getAttribute (snd (replaceBackgroundByImg standard_cssom 2 sample_page)) 3 (js ''src'') =
       Some ([0x22] @ js ''http://x/y.png'' @ [0x22])
   \<and> getAttribute (snd (replaceBackgroundByImg standard_cssom 2 sample_page)) 3 (js ''src'') \<noteq>
       Some (js ''http://x/y.png'')"
proof -
  have s: "style_get standard_cssom sample_page 2 (js ''background-image'') =
      js ''url('' @ [0x22] @ js ''http://x/y.png'' @ [0x22] @ js '')''"
    by (simp add: sample_page_def style_get_def standard_cssom_def js_def)
  have l: "2 < length sample_page" and len: "length sample_page = 3"
    and p: "parentNode (sample_page ! 2) = Some 0"
    and c: "childNodes (sample_page ! 0) = [Node 1, Node 2]"
    by (simp_all add: sample_page_def)
  have ne: "js ''url('' @ [0x22] @ js ''http://x/y.png'' @ [0x22] @ js '')'' \<noteq> []"
    by (simp add: js_def)
  note r = replaceBackgroundByImg_spec [OF l s ne, unfolded len]
  from r have f: "fst (replaceBackgroundByImg standard_cssom 2 sample_page) = 3"
    and t: "tagName (snd (replaceBackgroundByImg standard_cssom 2 sample_page) ! 3) = js ''img''"
    by blast+
  from r p have "childNodes (snd (replaceBackgroundByImg standard_cssom 2 sample_page) ! 0) =
      map (\<lambda>x. if x = Node 2 then Node 3 else x) (childNodes (sample_page ! 0))"
    by simp
  then have k: "childNodes (snd (replaceBackgroundByImg standard_cssom 2 sample_page) ! 0) =
      [Node 1, Node 3]"
    by (simp add: c)
  from r have "getAttribute (snd (replaceBackgroundByImg standard_cssom 2 sample_page)) 3
      (js ''src'') =
     Some (filter (\<lambda>c. c \<noteq> 0x29) (filter (\<lambda>c. c \<noteq> 0x27)
       (remove_url_open (js ''url('' @ [0x22] @ js ''http://x/y.png'' @ [0x22] @ js '')''))))"
    by blast
  then have a: "getAttribute (snd (replaceBackgroundByImg standard_cssom 2 sample_page)) 3
      (js ''src'') = Some ([0x22] @ js ''http://x/y.png'' @ [0x22])"
    by (simp add: js_def)
  then have n: "getAttribute (snd (replaceBackgroundByImg standard_cssom 2 sample_page)) 3
      (js ''src'') \<noteq> Some (js ''http://x/y.png'')"
    by (simp add: js_def)
  from s f t k a n show ?thesis by blast
qed



section \<open>Properties of the metadata builder\<close>

lemma unit_of_char_inj:
  "(of_nat (of_char c) :: 16 word) = of_nat (of_char d) \<longleftrightarrow> c = d"
proof
  assume eq: "(of_nat (of_char c) :: 16 word) = of_nat (of_char d)"
  have lt: "(of_char x :: nat) < 2 ^ LENGTH(16)" for x
  proof -
    have "(of_char x :: nat) mod 256 < 256" by simp
    then have "(of_char x :: nat) < 256" by (simp only: of_char_mod_256)
    then have "(of_char x :: nat) < 65536" by (rule less_trans) simp
    then show ?thesis by simp
  qed
  have "unat (of_nat (of_char c) :: 16 word) = unat (of_nat (of_char d) :: 16 word)"
    using eq by simp
  then have "(of_char c :: nat) mod 2 ^ LENGTH(16) = of_char d mod 2 ^ LENGTH(16)"
    by (simp only: unat_of_nat)
  then have "(of_char c :: nat) = of_char d"
    by (simp only: mod_less [OF lt])
  then show "c = d" by simp
qed simp

lemma js_eq_iff: "js a = js b \<longleftrightarrow> a = b"
proof -
  have "inj (\<lambda>c. (of_nat (of_char c) :: 16 word))"
    by (rule injI) (simp add: unit_of_char_inj)
  then show ?thesis unfolding js_def by (rule inj_map_eq_map)
qed

lemma keys_update_fresh:
  "k \<notin> set (map fst m) \<Longrightarrow> map fst (AList.update k v m) = map fst m @ [k]"
  by (induction m) auto

lemma documentFields_keys:
  assumes "documentFields Q document h = Inr meta"
  shows "map fst meta =
      opt_key (querySelector Q h document (js ''title'') \<noteq> None) (js ''Title'')
    @ opt_key (querySelector Q h document (attributeSelector ''property'' ''og:description'') \<noteq> None)
        (js ''Description'')
    @ opt_key (querySelector Q h document (attributeSelector ''property'' ''article:section'') \<noteq> None)
        (js ''Category'')
    @ opt_key (querySelector Q h document (attributeSelector ''property'' ''article:published_time'')
        \<noteq> None) (js ''Publication Date'')"
  using assms
  by (auto simp add: documentFields_def Let_def opt_key_def keys_update_fresh js_eq_iff
      split: option.splits)

lemma documentFields_returns:
  "(\<exists>meta. documentFields Q document h = Inr meta) \<longleftrightarrow>
   (\<forall>d. querySelector Q h document (attributeSelector ''property'' ''article:published_time'') = Some d
      \<longrightarrow> tagName (h ! d) = js ''meta'')"
  by (auto simp add: documentFields_def Let_def content_def split: option.splits)

lemma mainFields_keys:
  assumes "set (map fst meta) \<subseteq>
      {js ''Title'', js ''Description'', js ''Category'', js ''Publication Date''}"
  shows "map fst (fst (mainFields Q meta main document h)) = map fst meta
    @ opt_key (querySelector Q h main (attributeSelector ''rel'' ''author'') \<noteq> None) (js ''Author'')
    @ opt_key (\<exists>m. querySelector Q h main (js ''.blogPostContent__metaTop'') = Some m
          \<and> length (split 0x0A (trim (textContent Q h m))) = 3) (js ''Read Time'')
    @ opt_key (querySelector Q h document (attributeSelector ''property'' ''og:image'') \<noteq> None)
        (js ''Image'')"
proof -
  have fresh: "js ''Author'' \<notin> set (map fst meta)" "js ''Read Time'' \<notin> set (map fst meta)"
    "js ''Image'' \<notin> set (map fst meta)"
    using assms by (auto simp: js_eq_iff)
  show ?thesis
    using fresh
    by (auto simp add: mainFields_def Let_def opt_key_def keys_update_fresh js_eq_iff
        split: option.splits prod.splits)
qed

lemma cardImage_keys:
  assumes "js ''Card Image'' \<notin> set (map fst meta)"
  shows "map fst (fst (cardImage yoastMatch graphImageUrl html meta h)) = map fst meta
    @ opt_key (\<exists>m u. yoastMatch html = Some m \<and> graphImageUrl m = Inr (Some u)) (js ''Card Image'')"
  using assms
  by (auto simp add: cardImage_def Let_def opt_key_def keys_update_fresh
      split: option.splits prod.splits sum.splits)

lemma metadata_of_createMetadata:
  "map_sum id fst (createMetadata Q B main document h) = Inr meta \<longleftrightarrow>
   (\<exists>m. documentFields Q document h = Inr m \<and> meta = fst (mainFields Q m main document h))"
  by (auto simp add: createMetadata_def Let_def split: sum.splits prod.splits)

lemma metadata_of_createMetadata_v2:
  "map_sum id fst (createMetadata_v2 Q B ym gu main document html h) = Inr meta \<longleftrightarrow>
   (\<exists>m. documentFields Q document h = Inr m
      \<and> meta = fst (cardImage ym gu html (fst (mainFields Q m main document h))
                 (snd (mainFields Q m main document h))))"
  by (auto simp add: createMetadata_v2_def Let_def split: sum.splits prod.splits)

lemma documentFields_key_set:
  "documentFields Q document h = Inr m \<Longrightarrow>
   set (map fst m) \<subseteq> {js ''Title'', js ''Description'', js ''Category'', js ''Publication Date''}"
  by (auto simp add: documentFields_keys opt_key_def split: if_splits)

lemma mainFields_key_set:
  "documentFields Q document h = Inr m \<Longrightarrow>
   js ''Card Image'' \<notin> set (map fst (fst (mainFields Q m main document h)))"
  using documentFields_key_set [of Q document h m]
  by (auto simp add: mainFields_keys opt_key_def js_eq_iff split: if_splits)

text \<open>
  Claim C2, as the code has it. When \<open>createMetadata\<close> returns, the keys of the metadata
  are, in this order: Title, Description, Category, Publication Date, Author and Image,
  each exactly when its selector finds an element; Read Time exactly when the meta text
  is found and its trimmed text has three lines; in variant 2, Card Image exactly when
  the pattern matches and the lookup gives a truthy \<open>url\<close>. A field that is not present has
  no key. The function returns unless the publication-date element is not a \<open>meta\<close>
  element.
\<close>

theorem createMetadata_keys:
  "(map_sum id fst (createMetadata Q B main document h) = Inr meta \<longrightarrow>
      map fst meta =
        (if querySelector Q h document (js ''title'') \<noteq> None then [js ''Title''] else [])
      @ (if querySelector Q h document (attributeSelector ''property'' ''og:description'') \<noteq> None
         then [js ''Description''] else [])
      @ (if querySelector Q h document (attributeSelector ''property'' ''article:section'') \<noteq> None
         then [js ''Category''] else [])
      @ (if querySelector Q h document (attributeSelector ''property'' ''article:published_time'')
            \<noteq> None
         then [js ''Publication Date''] else [])
      @ (if querySelector Q h main (attributeSelector ''rel'' ''author'') \<noteq> None
         then [js ''Author''] else [])
      @ (if \<exists>m. querySelector Q h main (js ''.blogPostContent__metaTop'') = Some m
              \<and> length (split 0x0A (trim (textContent Q h m))) = 3
         then [js ''Read Time''] else [])
      @ (if querySelector Q h document (attributeSelector ''property'' ''og:image'') \<noteq> None
         then [js ''Image''] else []))
   \<and> (map_sum id fst (createMetadata_v2 Q B yoastMatch graphImageUrl main document html h)
        = Inr meta2 \<longrightarrow>
      map fst meta2 =
        (if querySelector Q h document (js ''title'') \<noteq> None then [js ''Title''] else [])
      @ (if querySelector Q h document (attributeSelector ''property'' ''og:description'') \<noteq> None
         then [js ''Description''] else [])
      @ (if querySelector Q h document (attributeSelector ''property'' ''article:section'') \<noteq> None
         then [js ''Category''] else [])
      @ (if querySelector Q h document (attributeSelector ''property'' ''article:published_time'')
            \<noteq> None
         then [js ''Publication Date''] else [])
      @ (if querySelector Q h main (attributeSelector ''rel'' ''author'') \<noteq> None
         then [js ''Author''] else [])
      @ (if \<exists>m. querySelector Q h main (js ''.blogPostContent__metaTop'') = Some m
              \<and> length (split 0x0A (trim (textContent Q h m))) = 3
         then [js ''Read Time''] else [])
      @ (if querySelector Q h document (attributeSelector ''property'' ''og:image'') \<noteq> None
         then [js ''Image''] else [])
      @ (if \<exists>m u. yoastMatch html = Some m \<and> graphImageUrl m = Inr (Some u)
         then [js ''Card Image''] else []))
   \<and> ((\<exists>m. map_sum id fst (createMetadata Q B main document h) = Inr m) \<longleftrightarrow>
        (\<forall>d. querySelector Q h document (attributeSelector ''property'' ''article:published_time'')
               = Some d \<longrightarrow> tagName (h ! d) = js ''meta''))"
proof (intro conjI impI)
  assume "map_sum id fst (createMetadata Q B main document h) = Inr meta"
  then obtain m where m: "documentFields Q document h = Inr m"
    and meta: "meta = fst (mainFields Q m main document h)"
    unfolding metadata_of_createMetadata by blast
  show "map fst meta =
        (if querySelector Q h document (js ''title'') \<noteq> None then [js ''Title''] else [])
      @ (if querySelector Q h document (attributeSelector ''property'' ''og:description'') \<noteq> None
         then [js ''Description''] else [])
      @ (if querySelector Q h document (attributeSelector ''property'' ''article:section'') \<noteq> None
         then [js ''Category''] else [])
      @ (if querySelector Q h document (attributeSelector ''property'' ''article:published_time'')
            \<noteq> None
         then [js ''Publication Date''] else [])
      @ (if querySelector Q h main (attributeSelector ''rel'' ''author'') \<noteq> None
         then [js ''Author''] else [])
      @ (if \<exists>m. querySelector Q h main (js ''.blogPostContent__metaTop'') = Some m
              \<and> length (split 0x0A (trim (textContent Q h m))) = 3
         then [js ''Read Time''] else [])
      @ (if querySelector Q h document (attributeSelector ''property'' ''og:image'') \<noteq> None
         then [js ''Image''] else [])"
    unfolding meta mainFields_keys [OF documentFields_key_set [OF m]] documentFields_keys [OF m]
    by (simp only: opt_key_def append_assoc)
next
  assume "map_sum id fst (createMetadata_v2 Q B yoastMatch graphImageUrl main document html h)
        = Inr meta2"
  then obtain m where m: "documentFields Q document h = Inr m"
    and meta: "meta2 = fst (cardImage yoastMatch graphImageUrl html
        (fst (mainFields Q m main document h)) (snd (mainFields Q m main document h)))"
    unfolding metadata_of_createMetadata_v2 by blast
  show "map fst meta2 =
        (if querySelector Q h document (js ''title'') \<noteq> None then [js ''Title''] else [])
      @ (if querySelector Q h document (attributeSelector ''property'' ''og:description'') \<noteq> None
         then [js ''Description''] else [])
      @ (if querySelector Q h document (attributeSelector ''property'' ''article:section'') \<noteq> None
         then [js ''Category''] else [])
      @ (if querySelector Q h document (attributeSelector ''property'' ''article:published_time'')
            \<noteq> None
         then [js ''Publication Date''] else [])
      @ (if querySelector Q h main (attributeSelector ''rel'' ''author'') \<noteq> None
         then [js ''Author''] else [])
      @ (if \<exists>m. querySelector Q h main (js ''.blogPostContent__metaTop'') = Some m
              \<and> length (split 0x0A (trim (textContent Q h m))) = 3
         then [js ''Read Time''] else [])
      @ (if querySelector Q h document (attributeSelector ''property'' ''og:image'') \<noteq> None
         then [js ''Image''] else [])
      @ (if \<exists>m u. yoastMatch html = Some m \<and> graphImageUrl m = Inr (Some u)
         then [js ''Card Image''] else [])"
    unfolding meta cardImage_keys [OF mainFields_key_set [OF m]]
      mainFields_keys [OF documentFields_key_set [OF m]] documentFields_keys [OF m]
    by (simp only: opt_key_def append_assoc)
next
  show "(\<exists>m. map_sum id fst (createMetadata Q B main document h) = Inr m) \<longleftrightarrow>
        (\<forall>d. querySelector Q h document (attributeSelector ''property'' ''article:published_time'')
               = Some d \<longrightarrow> tagName (h ! d) = js ''meta'')"
    unfolding metadata_of_createMetadata documentFields_returns [symmetric] by blast
qed

lemma article_result:
  "map_sum id fst (createMetadata article_dom sample_block 3 0 article_page) =
     Inr [(js ''Description'', StringValue (js ''About'')),
          (js ''Publication Date'', StringValue [])]"
  by (simp add: createMetadata_def documentFields_def mainFields_def Let_def article_dom_def
      article_page_def sample_block_def createElement_def content_def valueOf_def getAttribute_def
      nullToEmpty_def attributeSelector_def js_def substring_def clamp_def trim_def
      isWhiteSpace_def)

lemma article_result_v2:
  "map_sum id fst (createMetadata_v2 article_dom sample_block (\<lambda>html. Some html)
      (\<lambda>s. Inr (Some (js ''http://x/c.png''))) 3 0 (js ''{}'') article_page) =
     Inr [(js ''Description'', StringValue (js ''About'')),
          (js ''Publication Date'', StringValue []),
          (js ''Card Image'', ElementValue 5)]"
  by (simp add: createMetadata_v2_def documentFields_def mainFields_def cardImage_def Let_def
      article_dom_def article_page_def sample_block_def createElement_def content_def valueOf_def
      getAttribute_def nullToEmpty_def attributeSelector_def js_def substring_def clamp_def
      trim_def isWhiteSpace_def setAttribute_def)

lemma keys_of_result:
  "map_sum id fst X = Inr m \<Longrightarrow> map_sum id (map fst \<circ> fst) X = Inr (map fst m)"
  by (cases X) auto

theorem createMetadata_keys_witness:
  "map_sum id (map fst \<circ> fst) (createMetadata article_dom sample_block 3 0 article_page) =
     Inr [js ''Description'', js ''Publication Date'']
   \<and> map_sum id (map fst \<circ> fst) (createMetadata_v2 article_dom sample_block (\<lambda>html. Some html)
        (\<lambda>s. Inr (Some (js ''http://x/c.png''))) 3 0 (js ''{}'') article_page) =
     Inr [js ''Description'', js ''Publication Date'', js ''Card Image'']"
proof -
  let ?m = "[(js ''Description'', StringValue (js ''About'')),
      (js ''Publication Date'', StringValue [])]"
  let ?m2 = "[(js ''Description'', StringValue (js ''About'')),
      (js ''Publication Date'', StringValue []), (js ''Card Image'', ElementValue 5)]"
  have "map fst ?m = [js ''Description'', js ''Publication Date'']
      \<and> map fst ?m2 = [js ''Description'', js ''Publication Date'', js ''Card Image'']"
    using createMetadata_keys [of article_dom sample_block 3 0 article_page ?m
        "\<lambda>html. Some html" "\<lambda>s. Inr (Some (js ''http://x/c.png''))" "js ''{}''" ?m2]
      article_result article_result_v2
    by (simp add: article_dom_def article_page_def attributeSelector_def js_def trim_def
        isWhiteSpace_def)
  then show ?thesis
    using keys_of_result [OF article_result] keys_of_result [OF article_result_v2] by simp
qed

text \<open>
  The claim as written has every field present exactly when its selector finds an
  element, and never an empty-string placeholder. In \<open>article_page\<close> the meta text exists
  but has one line, and the metadata has no Read Time; its publication date
  \<open>2021-03-04\<close> has no \<open>T\<close>, so \<open>indexOf\<close> is \<open>-1\<close> and the Publication Date is the empty
  string.
\<close>

theorem createMetadata_read_time_absent:
  "querySelector article_dom article_page 3 (js ''.blogPostContent__metaTop'') = Some 4
   \<and> map_sum id fst (createMetadata article_dom sample_block 3 0 article_page) =
     Inr [(js ''Description'', StringValue (js ''About'')),
          (js ''Publication Date'', StringValue [])]"
  using article_result by (simp add: article_dom_def js_def attributeSelector_def)



section \<open>Properties of the callout builder\<close>

lemma set_innerHTML_nth_other: "x \<noteq> r \<Longrightarrow> childNodes (h ! r) = [] \<Longrightarrow> set_innerHTML r s h ! x = h ! x"
  by (simp add: set_innerHTML_def)

lemma node_append_nth_other:
  "parentNode (h ! c) = None \<Longrightarrow> x \<noteq> p \<Longrightarrow> x \<noteq> c \<Longrightarrow> node_append p c h ! x = h ! x"
  by (simp add: node_append_def remove_node_orphan Let_def)

lemma part_spec:
  fixes h :: "element list" and s :: "16 word list" and tg :: "16 word list"
    and container :: nat
  assumes c: "container < length h"
  defines "h' \<equiv> node_append container (length h)
      (set_innerHTML (length h) s (snd (createElement tg h)))"
  shows "length h' = Suc (length h)"
    and "\<And>x. x < length h \<Longrightarrow> x \<noteq> container \<Longrightarrow> h' ! x = h ! x"
    and "tagName (h' ! container) = tagName (h ! container)"
    and "parentNode (h' ! container) = parentNode (h ! container)"
    and "childNodes (h' ! container) = childNodes (h ! container) @ [Node (length h)]"
    and "tagName (h' ! length h) = tg"
proof -
  let ?e = "length h"
  let ?h1 = "snd (createElement tg h)"
  let ?h2 = "set_innerHTML ?e s ?h1"
  have l1: "length ?h1 = Suc (length h)" by (rule createElement_length)
  have l2: "length ?h2 = Suc (length h)" by (simp add: set_innerHTML_length l1)
  have new: "childNodes (?h1 ! ?e) = []" "parentNode (?h1 ! ?e) = None"
    "tagName (?h1 ! ?e) = tg"
    by (simp_all only: createElement_new element.simps)
  have p2: "parentNode (?h2 ! ?e) = None"
    by (simp add: set_innerHTML_parentNode_eq new)
  have old2: "?h2 ! x = h ! x" if "x < length h" for x
    using that by (simp add: set_innerHTML_nth_other new createElement_old)
  show "length h' = Suc (length h)" by (simp add: h'_def node_append_length l2)
  show "h' ! x = h ! x" if "x < length h" "x \<noteq> container" for x
    using that by (simp add: h'_def node_append_nth_other p2 old2)
  show "tagName (h' ! container) = tagName (h ! container)"
    using c by (simp add: h'_def node_append_tagName old2)
  show "parentNode (h' ! container) = parentNode (h ! container)"
    using c by (simp add: h'_def node_append_parentNode_eq old2)
  show "childNodes (h' ! container) = childNodes (h ! container) @ [Node (length h)]"
    using c by (simp add: h'_def node_append_orphan_childNodes p2 l2 old2)
  show "tagName (h' ! length h) = tg"
    by (simp add: h'_def node_append_tagName set_innerHTML_tagName new)
qed

lemma calloutContainer_spec:
  "fst (calloutContainer Q callout h) = length h
   \<and> length h < length (snd (calloutContainer Q callout h))
   \<and> (\<forall>x<length h. snd (calloutContainer Q callout h) ! x = h ! x)
   \<and> tagName (snd (calloutContainer Q callout h) ! length h) = js ''div''
   \<and> parentNode (snd (calloutContainer Q callout h) ! length h) = None
   \<and> (\<forall>c. Node c \<in> set (childNodes (snd (calloutContainer Q callout h) ! length h))
         \<longrightarrow> length h < c \<and> c < length (snd (calloutContainer Q callout h)))
   \<and> (\<forall>x. length h \<le> x \<and> x < length (snd (calloutContainer Q callout h))
         \<longrightarrow> tagName (snd (calloutContainer Q callout h) ! x) \<noteq> js ''a'')
   \<and> (querySelector Q (snd (createElement (js ''div'') h)) callout
          (js ''.blogPostContent__ctaText'') = None
       \<and> querySelector Q (snd (createElement (js ''div'') h)) callout
          (js ''.blogPostContent__ctaSubheading'') = None
       \<longrightarrow> childNodes (snd (calloutContainer Q callout h) ! length h) = [])"
proof -
  let ?c = "length h"
  let ?h1 = "snd (createElement (js ''div'') h)"
  define h2 where "h2 = (case querySelector Q ?h1 callout (js ''.blogPostContent__ctaText'') of
      None \<Rightarrow> ?h1
    | Some firstText \<Rightarrow> node_append ?c (length ?h1)
        (set_innerHTML (length ?h1) (textContent Q (snd (createElement (js ''h3'') ?h1)) firstText)
          (snd (createElement (js ''h3'') ?h1))))"
  define h3 where "h3 = (case querySelector Q h2 callout (js ''.blogPostContent__ctaSubheading'') of
      None \<Rightarrow> h2
    | Some sub \<Rightarrow> node_append ?c (length h2)
        (set_innerHTML (length h2) (innerHTML Q (snd (createElement (js ''p'') h2)) sub)
          (snd (createElement (js ''p'') h2))))"
  have eq: "calloutContainer Q callout h = (?c, h3)"
    by (simp add: calloutContainer_def h3_def h2_def createElement_def Let_def
        split: option.splits)
  have l1: "length ?h1 = Suc (length h)" by (rule createElement_length)
  have c1: "?c < length ?h1" by (simp add: l1)
  have new: "childNodes (?h1 ! ?c) = []" "parentNode (?h1 ! ?c) = None"
    "tagName (?h1 ! ?c) = js ''div''"
    by (simp_all only: createElement_new element.simps)
  have tags: "js ''div'' \<noteq> js ''a''" "js ''h3'' \<noteq> js ''a''" "js ''p'' \<noteq> js ''a''"
    by (simp_all add: js_def)
  have s2: "length ?h1 \<le> length h2 \<and> (\<forall>x<length h. h2 ! x = h ! x)
      \<and> tagName (h2 ! ?c) = js ''div'' \<and> parentNode (h2 ! ?c) = None
      \<and> (\<forall>c. Node c \<in> set (childNodes (h2 ! ?c)) \<longrightarrow> length h < c \<and> c < length h2)
      \<and> (\<forall>x. length h \<le> x \<and> x < length h2 \<longrightarrow> tagName (h2 ! x) \<noteq> js ''a'')
      \<and> (querySelector Q ?h1 callout (js ''.blogPostContent__ctaText'') = None \<longrightarrow> h2 = ?h1)"
  proof (cases "querySelector Q ?h1 callout (js ''.blogPostContent__ctaText'')")
    case None
    have "tagName (?h1 ! x) \<noteq> js ''a''" if "length h \<le> x" "x < length ?h1" for x
    proof -
      from that have "x = ?c" using l1 by simp
      then show ?thesis using new(3) tags by simp
    qed
    then show ?thesis using None by (simp add: h2_def new l1 createElement_old)
  next
    case (Some ft)
    have e: "h2 = node_append ?c (length ?h1)
        (set_innerHTML (length ?h1) (textContent Q (snd (createElement (js ''h3'') ?h1)) ft)
          (snd (createElement (js ''h3'') ?h1)))"
      using Some by (simp add: h2_def)
    note ps = part_spec [OF c1, where s = "textContent Q (snd (createElement (js ''h3'') ?h1)) ft"
          and tg = "js ''h3''", folded e]
    have a: "length ?h1 \<le> length h2" using ps(1) by simp
    have b: "\<forall>x<length h. h2 ! x = h ! x"
    proof (intro allI impI)
      fix x assume x: "x < length h"
      then have "h2 ! x = ?h1 ! x" using l1 by (intro ps(2)) simp_all
      then show "h2 ! x = h ! x" using x by (simp add: createElement_old)
    qed
    have c: "tagName (h2 ! ?c) = js ''div''" "parentNode (h2 ! ?c) = None"
      "childNodes (h2 ! ?c) = [Node (length ?h1)]"
      using ps(3,4,5) new by simp_all
    have d: "\<forall>c. Node c \<in> set (childNodes (h2 ! ?c)) \<longrightarrow> length h < c \<and> c < length h2"
      using c(3) ps(1) l1 by simp
    have t: "\<forall>x. length h \<le> x \<and> x < length h2 \<longrightarrow> tagName (h2 ! x) \<noteq> js ''a''"
    proof (intro allI impI)
      fix x assume "length h \<le> x \<and> x < length h2"
      then have "x = ?c \<or> x = length ?h1" using ps(1) l1 by auto
      then show "tagName (h2 ! x) \<noteq> js ''a''" using c(1) ps(6) tags by auto
    qed
    show ?thesis using a b c(1,2) d t Some by simp
  qed
  then have c2: "?c < length h2" using c1 by simp
  have s3: "length ?h1 \<le> length h3 \<and> (\<forall>x<length h. h3 ! x = h ! x)
      \<and> tagName (h3 ! ?c) = js ''div'' \<and> parentNode (h3 ! ?c) = None
      \<and> (\<forall>c. Node c \<in> set (childNodes (h3 ! ?c)) \<longrightarrow> length h < c \<and> c < length h3)
      \<and> (\<forall>x. length h \<le> x \<and> x < length h3 \<longrightarrow> tagName (h3 ! x) \<noteq> js ''a'')
      \<and> (querySelector Q h2 callout (js ''.blogPostContent__ctaSubheading'') = None \<longrightarrow> h3 = h2)"
  proof (cases "querySelector Q h2 callout (js ''.blogPostContent__ctaSubheading'')")
    case None
    then show ?thesis using s2 by (simp add: h3_def)
  next
    case (Some sub)
    note ps = part_spec [OF c2, where s = "innerHTML Q (snd (createElement (js ''p'') h2)) sub"
          and tg = "js ''p''"]
    have e: "h3 = node_append ?c (length h2)
        (set_innerHTML (length h2) (innerHTML Q (snd (createElement (js ''p'') h2)) sub)
          (snd (createElement (js ''p'') h2)))"
      using Some by (simp add: h3_def)
    have lt: "length h < length h2" using s2 l1 by simp
    have "tagName (h3 ! x) \<noteq> js ''a''" if "length h \<le> x" "x < length h3" for x
    proof (cases "x = length h2")
      case True
      then show ?thesis using ps(6) tags by (simp add: e)
    next
      case False
      with that have x2: "x < length h2" using ps(1) by (simp add: e)
      show ?thesis
      proof (cases "x = ?c")
        case True
        then show ?thesis using ps(3) s2 tags by (simp add: e)
      next
        case False
        then have "h3 ! x = h2 ! x" using ps(2) x2 by (simp add: e)
        then show ?thesis using s2 that x2 by simp
      qed
    qed
    moreover have "\<forall>c. Node c \<in> set (childNodes (h3 ! ?c)) \<longrightarrow> length h < c \<and> c < length h3"
      using ps(1,5) s2 lt by (auto simp add: e)
    moreover have "\<forall>x<length h. h3 ! x = h ! x"
      using ps(2) s2 lt by (simp add: e)
    moreover have "length ?h1 \<le> length h3" using ps(1) s2 by (simp add: e)
    ultimately show ?thesis
      using Some ps(3,4) s2 by (simp add: e)
  qed
  have empty: "childNodes (h3 ! ?c) = []"
    if "querySelector Q ?h1 callout (js ''.blogPostContent__ctaText'') = None"
      "querySelector Q ?h1 callout (js ''.blogPostContent__ctaSubheading'') = None"
  proof -
    have "h2 = ?h1" using s2 that by simp
    then have "h3 = ?h1" using s3 that by simp
    then show ?thesis by (simp only: new)
  qed
  show ?thesis
    unfolding eq fst_conv snd_conv using s3 empty l1 by auto
qed

lemma calloutName_nonempty: "calloutName h callout \<noteq> []"
  by (simp add: calloutName_def Let_def js_def)

lemma subseq_subset: "subseq xs ys \<Longrightarrow> x \<in> set xs \<Longrightarrow> x \<in> set ys"
  by (erule list_emb_set) auto

lemma calloutStep_parts:
  assumes cl: "callout < length h"
    and link: "\<forall>a. calloutLink Q h callout = Some a \<longrightarrow> a < length h \<and> a \<noteq> callout"
    and N: "N \<le> length h"
    and par: "\<forall>p. parentNode (h ! callout) = Some p \<longrightarrow> p < N"
  shows "tableRows (calloutStep Q h callout) (calloutTable Q h callout) =
      Some ([(js ''th'', [Markup (calloutName h callout)])]
            # [(js ''td'', [Node (length h)])]
            # (case calloutLink Q h callout of None \<Rightarrow> [] | Some a \<Rightarrow> [[(js ''td'', [Node a])]]))"
    and "tagName (calloutStep Q h callout ! length h) = js ''div''"
    and "childNodes (calloutStep Q h callout ! length h) =
        childNodes (snd (calloutContainer Q callout h) ! length h)"
    and "parentNode (calloutStep Q h callout ! calloutTable Q h callout) = parentNode (h ! callout)"
    and "calloutTable Q h callout = length (snd (calloutContainer Q callout h))"
    and "calloutTable Q h callout < length (calloutStep Q h callout)"
    and "\<forall>x<length (snd (calloutContainer Q callout h)).
          tagName (calloutStep Q h callout ! x) = tagName (snd (calloutContainer Q callout h) ! x)
          \<and> attributes (calloutStep Q h callout ! x) =
              attributes (snd (calloutContainer Q callout h) ! x)"
    and "\<forall>x<length h. x \<noteq> callout \<and> calloutLink Q h callout \<noteq> Some x \<longrightarrow>
          parentNode (calloutStep Q h callout ! x) = parentNode (h ! x)"
    and "\<forall>x<length h. N \<le> x \<longrightarrow>
          subseq (childNodes (calloutStep Q h callout ! x)) (childNodes (h ! x))
          \<and> ((\<forall>r\<in>insert (length h) (set_option (calloutLink Q h callout)).
                 Node r \<notin> set (childNodes (h ! x))) \<longrightarrow>
               childNodes (calloutStep Q h callout ! x) = childNodes (h ! x))"
    and "\<forall>t. Node t \<in> set (childNodes (calloutStep Q h callout ! calloutTable Q h callout)) \<longrightarrow>
          calloutTable Q h callout \<le> t
          \<and> (\<forall>c. Node c \<in> set (childNodes (calloutStep Q h callout ! t)) \<longrightarrow>
                calloutTable Q h callout \<le> c)"
proof -
  let ?c = "length h"
  let ?hc = "snd (calloutContainer Q callout h)"
  let ?T = "length ?hc"
  let ?name = "calloutName h callout"
  let ?links = "case calloutLink Q h callout of None \<Rightarrow> [] | Some a \<Rightarrow> [[Elem a]]"
  let ?rows = "[Str ?name] # [Elem ?c] # ?links"
  let ?h2 = "snd (createTable ?rows ?hc)"
  let ?h3 = "replaceWith callout ?T ?h2"
  let ?R = "insert ?c (set_option (calloutLink Q h callout))"
  have cont: "fst (calloutContainer Q callout h) = ?c" "length h < length ?hc"
    "\<And>x. x < length h \<Longrightarrow> ?hc ! x = h ! x"
    "tagName (?hc ! ?c) = js ''div''"
    "\<And>c. Node c \<in> set (childNodes (?hc ! ?c)) \<Longrightarrow> length h < c"
    using calloutContainer_spec [of Q callout h] by blast+
  have rows: "calloutRows Q callout h = (?rows, ?hc)"
    using cont(1)
    by (cases "calloutContainer Q callout h")
      (simp add: calloutRows_def calloutLink_def Let_def split: option.splits)
  have refs: "set (dataRefs ?rows) = ?R"
    by (auto simp add: dataRefs_def split: option.splits)
  have facts: "(\<forall>r\<in>set (dataRefs ?rows). r < length ?hc) \<and> distinct (dataRefs ?rows)
      \<and> (\<forall>r\<in>set (dataRefs ?rows). r = ?c \<or> r < length h)
      \<and> callout \<notin> set (dataRefs ?rows)"
  proof (cases "calloutLink Q h callout")
    case None
    then show ?thesis using cont(2) cl by (simp add: dataRefs_def)
  next
    case (Some a)
    then have "a < length h \<and> a \<noteq> callout" using link by simp
    then show ?thesis using cont(2) cl Some by (auto simp add: dataRefs_def)
  qed
  then have valid: "\<forall>r\<in>set (dataRefs ?rows). r < length ?hc"
    and dist: "distinct (dataRefs ?rows)"
    and old: "\<forall>r\<in>set (dataRefs ?rows). r = ?c \<or> r < length h"
    and notin: "callout \<notin> set (dataRefs ?rows)"
    by blast+
  have tab: "fst (createTable ?rows ?hc) = ?T"
    "frame ?R {} ?hc ?h2"
    "length ?hc < length ?h2"
    "parentNode (?h2 ! ?T) = None"
    "\<forall>t. Node t \<in> set (childNodes (?h2 ! ?T)) \<longrightarrow>
          ?T \<le> t \<and> (\<forall>c. Node c \<in> set (childNodes (?h2 ! t)) \<longrightarrow> ?T \<le> c)"
    "tableRows ?h2 ?T = Some (tableSpec ?rows)"
    using createTable_spec [OF valid dist] unfolding refs by blast+
  have T: "calloutTable Q h callout = ?T"
    by (simp add: calloutTable_def rows createTable_fst)
  have step: "calloutStep Q h callout = ?h3"
    using createTable_fst [of ?rows ?hc]
    by (cases "createTable ?rows ?hc") (simp add: calloutStep_def rows Let_def)
  have spec: "tableSpec ?rows = [(js ''th'', [Markup ?name])] # [(js ''td'', [Node ?c])]
      # (case calloutLink Q h callout of None \<Rightarrow> [] | Some a \<Rightarrow> [[(js ''td'', [Node a])]])"
    by (simp add: tableSpec_def rowSpec_def markup_def calloutName_nonempty split: option.splits)
  have c2: "tagName (?h2 ! ?c) = js ''div''"
    using frame_tagName [OF tab(2), of ?c] cont(2,4) by simp
  have "\<forall>r\<in>?R. Node r \<notin> set (childNodes (?hc ! ?c))"
    using old cont(5) unfolding refs by fastforce
  then have k2: "childNodes (?h2 ! ?c) = childNodes (?hc ! ?c)"
    using frame_childNodes [OF tab(2), of ?c] cont(2) by simp
  have p2: "parentNode (?h2 ! x) = parentNode (h ! x)" if "x < length h" "x \<notin> ?R" for x
    using frame_parentNode [OF tab(2), of x] that cont(2,3) by simp
  have cR: "callout \<notin> ?R" using notin unfolding refs .
  have ne: "?T \<noteq> callout" using cl cont(2) by simp
  have l3: "length ?h3 = length ?h2" by (rule replaceWith_length)
  have tg3: "tagName (?h3 ! x) = tagName (?h2 ! x)" for x by (rule replaceWith_field) simp_all
  have at3: "attributes (?h3 ! x) = attributes (?h2 ! x)" for x
    by (rule replaceWith_field) simp_all
  have ch3: "childNodes (?h3 ! x) = childNodes (?h2 ! x)" if "N \<le> x" for x
  proof (cases "parentNode (h ! callout)")
    case None
    then have "?h3 = ?h2" using p2 [OF cl cR] by (simp add: replaceWith_no_parent)
    then show ?thesis by simp
  next
    case (Some p)
    then have pp: "parentNode (?h2 ! callout) = Some p" using p2 [OF cl cR] by simp
    have "x \<noteq> p" using par Some that by auto
    then show ?thesis
      by (simp add: replaceWith_childNodes_eq [OF pp ne] remove_node_orphan tab(4))
  qed
  have pn3: "parentNode (?h3 ! x) = parentNode (?h2 ! x)" if "x \<noteq> callout" "x \<noteq> ?T" for x
  proof (cases "parentNode (h ! callout)")
    case None
    then have "?h3 = ?h2" using p2 [OF cl cR] by (simp add: replaceWith_no_parent)
    then show ?thesis by simp
  next
    case (Some p)
    then have pp: "parentNode (?h2 ! callout) = Some p" using p2 [OF cl cR] by simp
    show ?thesis using that by (simp add: replaceWith_parentNode_eq [OF pp ne])
  qed
  have pT: "parentNode (?h3 ! ?T) = parentNode (h ! callout)"
  proof (cases "parentNode (h ! callout)")
    case None
    then have "?h3 = ?h2" using p2 [OF cl cR] by (simp add: replaceWith_no_parent)
    then show ?thesis using tab(4) None by simp
  next
    case (Some p)
    then have pp: "parentNode (?h2 ! callout) = Some p" using p2 [OF cl cR] by simp
    show ?thesis using tab(3) ne Some by (simp add: replaceWith_parentNode_eq [OF pp ne])
  qed
  have NT: "N \<le> ?T" using N cont(2) by simp
  have same: "\<forall>x<length ?h2. ?T \<le> x \<longrightarrow>
      tagName (?h3 ! x) = tagName (?h2 ! x) \<and> childNodes (?h3 ! x) = childNodes (?h2 ! x)"
    using NT by (simp add: tg3 ch3)
  have st: "tableRows ?h3 ?T = Some (tableSpec ?rows)"
    using tab(6) _ same _ tab(5)
    by (rule tableRows_stable) (simp_all add: l3)
  show "tableRows (calloutStep Q h callout) (calloutTable Q h callout) =
      Some ([(js ''th'', [Markup (calloutName h callout)])]
            # [(js ''td'', [Node (length h)])]
            # (case calloutLink Q h callout of None \<Rightarrow> [] | Some a \<Rightarrow> [[(js ''td'', [Node a])]]))"
    unfolding step T using st by (simp only: spec)
  show "tagName (calloutStep Q h callout ! length h) = js ''div''"
    unfolding step using c2 by (simp add: tg3)
  show "childNodes (calloutStep Q h callout ! length h) = childNodes (?hc ! length h)"
    unfolding step using k2 N by (simp add: ch3)
  show "parentNode (calloutStep Q h callout ! calloutTable Q h callout) = parentNode (h ! callout)"
    unfolding step T by (rule pT)
  show "calloutTable Q h callout = ?T" by (rule T)
  show "calloutTable Q h callout < length (calloutStep Q h callout)"
    unfolding step T using tab(3) by (simp add: l3)
  show "\<forall>x<length ?hc. tagName (calloutStep Q h callout ! x) = tagName (?hc ! x)
          \<and> attributes (calloutStep Q h callout ! x) = attributes (?hc ! x)"
    unfolding step using tab(2) by (simp add: tg3 at3 frame_def)
  show "\<forall>x<length h. x \<noteq> callout \<and> calloutLink Q h callout \<noteq> Some x \<longrightarrow>
          parentNode (calloutStep Q h callout ! x) = parentNode (h ! x)"
  proof (intro allI impI)
    fix x assume x: "x < length h" and "x \<noteq> callout \<and> calloutLink Q h callout \<noteq> Some x"
    then have "x \<notin> ?R" and "x \<noteq> callout" and "x \<noteq> ?T" using cont(2) by auto
    then show "parentNode (calloutStep Q h callout ! x) = parentNode (h ! x)"
      unfolding step using x by (simp add: pn3 p2)
  qed
  show "\<forall>x<length h. N \<le> x \<longrightarrow>
          subseq (childNodes (calloutStep Q h callout ! x)) (childNodes (h ! x))
          \<and> ((\<forall>r\<in>?R. Node r \<notin> set (childNodes (h ! x))) \<longrightarrow>
               childNodes (calloutStep Q h callout ! x) = childNodes (h ! x))"
  proof (intro allI impI)
    fix x assume x: "x < length h" and Nx: "N \<le> x"
    have xc: "x < length ?hc" using x cont(2) by simp
    have "subseq (childNodes (?h2 ! x)) (childNodes (?hc ! x))"
      using tab(2) xc by (simp add: frame_def)
    moreover have "childNodes (?h2 ! x) = childNodes (?hc ! x)"
      if "\<forall>r\<in>?R. Node r \<notin> set (childNodes (?hc ! x))"
      using frame_childNodes [OF tab(2) xc _ that] by simp
    ultimately show "subseq (childNodes (calloutStep Q h callout ! x)) (childNodes (h ! x))
          \<and> ((\<forall>r\<in>?R. Node r \<notin> set (childNodes (h ! x))) \<longrightarrow>
               childNodes (calloutStep Q h callout ! x) = childNodes (h ! x))"
      unfolding step using x by (simp add: ch3 [OF Nx] cont(3))
  qed
  show "\<forall>t. Node t \<in> set (childNodes (calloutStep Q h callout ! calloutTable Q h callout)) \<longrightarrow>
          calloutTable Q h callout \<le> t
          \<and> (\<forall>c. Node c \<in> set (childNodes (calloutStep Q h callout ! t)) \<longrightarrow>
                calloutTable Q h callout \<le> c)"
  proof (intro allI impI)
    fix t assume "Node t \<in> set (childNodes (calloutStep Q h callout ! calloutTable Q h callout))"
    then have t: "Node t \<in> set (childNodes (?h2 ! ?T))"
      unfolding step T using NT by (simp add: ch3)
    then have Tt: "?T \<le> t" using tab(5) by simp
    then have "N \<le> t" using NT by simp
    then show "calloutTable Q h callout \<le> t
          \<and> (\<forall>c. Node c \<in> set (childNodes (calloutStep Q h callout ! t)) \<longrightarrow>
                calloutTable Q h callout \<le> c)"
      unfolding step T using tab(5) t Tt by (simp add: ch3)
  qed
qed

lemma tableRows_nodes:
  assumes "tableRows h T = Some rows"
  shows "T < length h" and "tagName (h ! T) = js ''table''"
    and "\<And>t. Node t \<in> set (childNodes (h ! T)) \<Longrightarrow> t < length h"
proof -
  from assms obtain trs where Tl: "T < length h" and tg: "tagName (h ! T) = js ''table''"
    and trs: "refsOf (childNodes (h ! T)) = Some trs"
    and th: "those (map (cellsOf h) trs) = Some rows"
    by (auto simp: tableRows_def split: if_splits option.splits)
  show "T < length h" by (rule Tl)
  show "tagName (h ! T) = js ''table''" by (rule tg)
  show "t < length h" if "Node t \<in> set (childNodes (h ! T))" for t
  proof -
    have "childNodes (h ! T) = map Node trs" using trs by (rule refsOf_Some)
    with that have "t \<in> set trs" by auto
    then have "cellsOf h t \<in> set (map (cellsOf h) trs)" by simp
    then have "cellsOf h t \<in> set (map Some rows)" using those_Some [OF th] by simp
    then obtain cs where "cellsOf h t = Some cs" by auto
    then show ?thesis by (auto simp: cellsOf_def split: if_splits)
  qed
qed

lemma tableRows_thin:
  assumes rows: "tableRows h T = Some rows" and len: "length h \<le> length h'"
    and tags: "\<forall>x<length h. N \<le> x \<longrightarrow> tagName (h' ! x) = tagName (h ! x)"
    and kids: "\<forall>x<length h. N \<le> x \<longrightarrow>
        subseq (childNodes (h' ! x)) (childNodes (h ! x))
        \<and> ((\<forall>r\<in>A. Node r \<notin> set (childNodes (h ! x))) \<longrightarrow>
              childNodes (h' ! x) = childNodes (h ! x))"
    and T: "N \<le> T"
    and new: "\<forall>t. Node t \<in> set (childNodes (h ! T)) \<longrightarrow>
        N \<le> t \<and> (\<forall>c. Node c \<in> set (childNodes (h ! t)) \<longrightarrow> N \<le> c)"
    and A: "\<forall>r\<in>A. length h \<le> r \<or> tagName (h ! r) = js ''a''"
    and cells: "\<forall>row\<in>set rows. \<forall>cell\<in>set row. fst cell \<noteq> js ''a''"
  shows "\<exists>rows'. tableRows h' T = Some rows'
    \<and> list_all2 (list_all2 (\<lambda>c' c. fst c' = fst c \<and> subseq (snd c') (snd c)
          \<and> ((\<forall>r\<in>A. Node r \<notin> set (snd c)) \<longrightarrow> snd c' = snd c))) rows' rows"
proof -
  let ?R = "\<lambda>c' c. fst c' = fst c \<and> subseq (snd c') (snd c)
          \<and> ((\<forall>r\<in>A. Node r \<notin> set (snd c)) \<longrightarrow> snd c' = snd c)"
  from rows obtain trs where Tl: "T < length h" and tg: "tagName (h ! T) = js ''table''"
    and trs: "refsOf (childNodes (h ! T)) = Some trs"
    and th: "those (map (cellsOf h) trs) = Some rows"
    by (auto simp: tableRows_def split: if_splits option.splits)
  have ch: "childNodes (h ! T) = map Node trs" using trs by (rule refsOf_Some)
  have all: "map (cellsOf h) trs = map Some rows" using th by (rule those_Some)
  have tra: "js ''tr'' \<noteq> js ''a''" by (simp add: js_def)
  have key: "\<exists>cs cs'. cellsOf h tr = Some cs \<and> cellsOf h' tr = Some cs' \<and> list_all2 ?R cs' cs
      \<and> tr \<notin> A"
    if "tr \<in> set trs" for tr
  proof -
    have "cellsOf h tr \<in> set (map (cellsOf h) trs)" using that by simp
    then have "cellsOf h tr \<in> set (map Some rows)" by (simp only: all)
    then obtain cs where cs: "cellsOf h tr = Some cs" and csr: "cs \<in> set rows" by auto
    then obtain ts where trl: "tr < length h" and ttg: "tagName (h ! tr) = js ''tr''"
      and ts: "refsOf (childNodes (h ! tr)) = Some ts" and inr: "\<forall>t\<in>set ts. t < length h"
      and cseq: "cs = map (\<lambda>t. (tagName (h ! t), childNodes (h ! t))) ts"
      by (auto simp: cellsOf_def list_all_iff split: if_splits option.splits)
    have tch: "childNodes (h ! tr) = map Node ts" using ts by (rule refsOf_Some)
    have "Node tr \<in> set (childNodes (h ! T))" using that ch by simp
    then have Ntr: "N \<le> tr" and Nts: "\<forall>t\<in>set ts. N \<le> t"
      using new tch by auto
    have trA: "tr \<notin> A"
    proof
      assume "tr \<in> A"
      then have "length h \<le> tr \<or> tagName (h ! tr) = js ''a''" using A by blast
      then show False using trl ttg tra by simp
    qed
    have tsA: "t \<notin> A" if t: "t \<in> set ts" for t
    proof -
      have "(tagName (h ! t), childNodes (h ! t)) \<in> set cs" using t cseq by auto
      then have nt: "tagName (h ! t) \<noteq> js ''a''" using cells csr by fastforce
      have lt: "t < length h" using inr t by simp
      show ?thesis
      proof
        assume "t \<in> A"
        then have "length h \<le> t \<or> tagName (h ! t) = js ''a''" using A by blast
        then show False using nt lt by simp
      qed
    qed
    have "\<forall>r\<in>A. Node r \<notin> set (childNodes (h ! tr))" using tsA tch by auto
    then have tr': "childNodes (h' ! tr) = map Node ts" "tagName (h' ! tr) = js ''tr''"
      using kids tags trl Ntr tch ttg by simp_all
    let ?cs' = "map (\<lambda>t. (tagName (h' ! t), childNodes (h' ! t))) ts"
    have "cellsOf h' tr = Some ?cs'"
      using trl len inr by (auto simp: cellsOf_def tr' refsOf_map_Node list_all_iff)
    moreover have "list_all2 ?R ?cs' cs"
      unfolding cseq list_all2_map1 list_all2_map2
      using kids tags inr Nts by (intro list_all2_same [THEN iffD2]) simp
    ultimately show ?thesis using cs trA by blast
  qed
  have "\<forall>r\<in>A. Node r \<notin> set (childNodes (h ! T))" using key ch by auto
  then have T': "childNodes (h' ! T) = map Node trs" "tagName (h' ! T) = js ''table''"
    using kids tags Tl T ch tg by simp_all
  let ?rows' = "map (\<lambda>tr. the (cellsOf h' tr)) trs"
  have some': "cellsOf h' tr = Some (the (cellsOf h' tr))" if "tr \<in> set trs" for tr
  proof -
    from key [OF that] obtain cs' where "cellsOf h' tr = Some cs'" by blast
    then show ?thesis by simp
  qed
  have rel: "list_all2 ?R (the (cellsOf h' tr)) (the (cellsOf h tr))" if "tr \<in> set trs" for tr
  proof -
    from key [OF that] obtain cs cs' where "cellsOf h tr = Some cs" "cellsOf h' tr = Some cs'"
      "list_all2 ?R cs' cs" by blast
    then show ?thesis by simp
  qed
  have "map (cellsOf h') trs = map Some ?rows'"
    using some' by simp
  then have "those (map (cellsOf h') trs) = Some ?rows'" by (rule those_map_Some)
  then have r': "tableRows h' T = Some ?rows'"
    using Tl len by (simp add: tableRows_def T' refsOf_map_Node)
  have "map (the \<circ> cellsOf h) trs = map (the \<circ> Some) rows"
    using all by (metis map_map)
  then have rw: "rows = map (\<lambda>tr. the (cellsOf h tr)) trs" by (simp add: comp_def)
  have "list_all2 (list_all2 ?R) ?rows' rows"
    unfolding rw list_all2_map1 list_all2_map2
    using rel by (intro list_all2_same [THEN iffD2]) simp
  with r' show ?thesis by blast
qed

lemma grows_trans: "grows h s \<Longrightarrow> grows s s' \<Longrightarrow> grows h s'"
  by (auto simp add: grows_def)

lemma linksFound_grows: "linksFound Q h \<Longrightarrow> grows h s \<Longrightarrow> linksFound Q s"
  unfolding linksFound_def using grows_trans by blast

lemma calloutsOk_link:
  assumes ok: "calloutsOk Q N s (c # cs)"
  shows "\<forall>a. calloutLink Q s c = Some a \<longrightarrow>
      a < length s \<and> a \<noteq> c \<and> tagName (s ! a) = js ''a''"
proof (intro allI impI)
  fix a assume a: "calloutLink Q s c = Some a"
  let ?hc = "snd (calloutContainer Q c s)"
  have cont: "length s < length ?hc" "\<And>x. x < length s \<Longrightarrow> ?hc ! x = s ! x"
    "\<And>x. length s \<le> x \<Longrightarrow> x < length ?hc \<Longrightarrow> tagName (?hc ! x) \<noteq> js ''a''"
    using calloutContainer_spec [of Q c s] by blast+
  have "grows s ?hc" using cont(1,2) by (simp add: grows_def)
  moreover have "querySelector Q ?hc c (js ''a'') = Some a"
    using a by (simp add: calloutLink_def)
  moreover have "linksFound Q s" using ok by (simp add: calloutsOk_def)
  ultimately have al: "a < length ?hc" and at: "tagName (?hc ! a) = js ''a''"
    unfolding linksFound_def by blast+
  have lt: "a < length s"
  proof (rule ccontr)
    assume "\<not> a < length s"
    then have "tagName (?hc ! a) \<noteq> js ''a''" using al by (intro cont(3)) simp_all
    then show False using at by simp
  qed
  then have ta: "tagName (s ! a) = js ''a''" using at cont(2) by simp
  moreover have "tagName (s ! c) \<noteq> js ''a''" using ok by (simp add: calloutsOk_def)
  ultimately have "a \<noteq> c" by auto
  then show "a < length s \<and> a \<noteq> c \<and> tagName (s ! a) = js ''a''" using lt ta by simp
qed

lemma calloutsOk_step:
  assumes ok: "calloutsOk Q N s (c # cs)"
  shows "calloutsOk Q N (calloutStep Q s c) cs"
    and "grows s (calloutStep Q s c)"
    and "\<forall>x<length s. attributes (calloutStep Q s c ! x) = attributes (s ! x)"
    and "\<forall>x\<in>set cs. parentNode (calloutStep Q s c ! x) = parentNode (s ! x)"
proof -
  let ?s1 = "calloutStep Q s c"
  let ?hc = "snd (calloutContainer Q c s)"
  from ok have N: "N \<le> length s" and dist: "distinct (c # cs)"
    and cN: "c < N" and par: "\<forall>p. parentNode (s ! c) = Some p \<longrightarrow> p < N"
    and rest: "\<forall>x\<in>set cs. x < N \<and> tagName (s ! x) \<noteq> js ''a''
        \<and> (\<forall>p. parentNode (s ! x) = Some p \<longrightarrow> p < N)"
    and lf: "linksFound Q s"
    by (simp_all add: calloutsOk_def)
  have cl: "c < length s" using cN N by simp
  note lk = calloutsOk_link [OF ok]
  then have link: "\<forall>a. calloutLink Q s c = Some a \<longrightarrow> a < length s \<and> a \<noteq> c" by blast
  note parts = calloutStep_parts [OF cl link N par]
  have cont: "length s < length ?hc" "\<And>x. x < length s \<Longrightarrow> ?hc ! x = s ! x"
    using calloutContainer_spec [of Q c s] by blast+
  have len: "length s \<le> length ?s1" using parts(5,6) cont(1) by simp
  have tg: "tagName (?s1 ! x) = tagName (s ! x)" and at: "attributes (?s1 ! x) = attributes (s ! x)"
    if "x < length s" for x
    using parts(7) cont that by simp_all
  show g: "grows s ?s1" using len tg by (simp add: grows_def)
  show "\<forall>x<length s. attributes (?s1 ! x) = attributes (s ! x)" using at by simp
  show pr: "\<forall>x\<in>set cs. parentNode (?s1 ! x) = parentNode (s ! x)"
  proof
    fix x assume x: "x \<in> set cs"
    then have xl: "x < length s" and xt: "tagName (s ! x) \<noteq> js ''a''" using rest N by auto
    have "x \<noteq> c" using x dist by auto
    moreover have "calloutLink Q s c \<noteq> Some x" using lk xt by auto
    ultimately show "parentNode (?s1 ! x) = parentNode (s ! x)" using parts(8) xl by simp
  qed
  have "linksFound Q ?s1" using lf g by (rule linksFound_grows)
  moreover have "\<forall>x\<in>set cs. x < N \<and> tagName (?s1 ! x) \<noteq> js ''a''
        \<and> (\<forall>p. parentNode (?s1 ! x) = Some p \<longrightarrow> p < N)"
    using rest pr tg N by auto
  ultimately show "calloutsOk Q N ?s1 cs"
    using N len dist by (simp add: calloutsOk_def)
qed

lemma blockAt_new:
  assumes ok: "calloutsOk Q N s (c # cs)"
  shows "blockAt (calloutStep Q s c) N (calloutTable Q s c) (length s) (calloutName s c)
      (calloutLink Q s c) (childNodes (snd (calloutContainer Q c s) ! length s))
      (parentNode (s ! c))"
proof -
  let ?s1 = "calloutStep Q s c"
  let ?hc = "snd (calloutContainer Q c s)"
  let ?T = "calloutTable Q s c"
  from ok have N: "N \<le> length s" and cN: "c < N"
    and par: "\<forall>p. parentNode (s ! c) = Some p \<longrightarrow> p < N"
    by (simp_all add: calloutsOk_def)
  have cl: "c < length s" using cN N by simp
  note lk = calloutsOk_link [OF ok]
  then have link: "\<forall>a. calloutLink Q s c = Some a \<longrightarrow> a < length s \<and> a \<noteq> c" by blast
  note parts = calloutStep_parts [OF cl link N par]
  have cont: "length s < length ?hc"
    "\<And>x. length s \<le> x \<Longrightarrow> x < length ?hc \<Longrightarrow> tagName (?hc ! x) \<noteq> js ''a''"
    "\<And>x. Node x \<in> set (childNodes (?hc ! length s)) \<Longrightarrow> length s < x \<and> x < length ?hc"
    using calloutContainer_spec [of Q c s] by blast+
  have NT: "N \<le> ?T" using parts(5) cont(1) N by simp
  have rows: "\<exists>third. tableRows ?s1 ?T =
          Some ([(js ''th'', [Markup (calloutName s c)])] # [(js ''td'', [Node (length s)])] # third)
        \<and> (case calloutLink Q s c of
             None \<Rightarrow> third = []
           | Some a \<Rightarrow> \<exists>kids. third = [[(js ''td'', kids)]] \<and> subseq kids [Node a])"
    using parts(1) by (cases "calloutLink Q s c") auto
  have new: "\<forall>t. Node t \<in> set (childNodes (?s1 ! ?T)) \<longrightarrow>
           N \<le> t \<and> (\<forall>c. Node c \<in> set (childNodes (?s1 ! t)) \<longrightarrow> N \<le> c)"
    using parts(10) NT by (meson le_trans)
  have D: "length s < length ?s1" using parts(5,6) cont(1) by simp
  have dk: "\<forall>x. Node x \<in> set (childNodes (?hc ! length s)) \<longrightarrow>
      x < length ?s1 \<and> tagName (?s1 ! x) \<noteq> js ''a''"
  proof (intro allI impI)
    fix x assume "Node x \<in> set (childNodes (?hc ! length s))"
    then have x: "length s < x" "x < length ?hc" using cont(3) by blast+
    then have "tagName (?hc ! x) \<noteq> js ''a''" by (intro cont(2)) simp_all
    then show "x < length ?s1 \<and> tagName (?s1 ! x) \<noteq> js ''a''"
      using parts(5,6,7) x by simp
  qed
  show ?thesis
    unfolding blockAt_def using rows NT new N D parts(2,3,4) dk by simp
qed

lemma blockAt_step:
  assumes ok: "calloutsOk Q N s (c # cs)"
    and blk: "blockAt s N T D name link dk par"
  shows "blockAt (calloutStep Q s c) N T D name link dk par"
proof -
  let ?s1 = "calloutStep Q s c"
  let ?hc = "snd (calloutContainer Q c s)"
  let ?A = "insert (length s) (set_option (calloutLink Q s c))"
  let ?R = "\<lambda>c' c. fst c' = fst c \<and> subseq (snd c') (snd c)
          \<and> ((\<forall>r\<in>?A. Node r \<notin> set (snd c)) \<longrightarrow> snd c' = snd c)"
  from ok have N: "N \<le> length s" and cN: "c < N"
    and par: "\<forall>p. parentNode (s ! c) = Some p \<longrightarrow> p < N"
    by (simp_all add: calloutsOk_def)
  have cl: "c < length s" using cN N by simp
  note lk = calloutsOk_link [OF ok]
  then have link: "\<forall>a. calloutLink Q s c = Some a \<longrightarrow> a < length s \<and> a \<noteq> c" by blast
  note parts = calloutStep_parts [OF cl link N par]
  note g = calloutsOk_step(2) [OF ok]
  then have len: "length s \<le> length ?s1"
    and tg: "\<And>x. x < length s \<Longrightarrow> tagName (?s1 ! x) = tagName (s ! x)"
    by (simp_all add: grows_def)
  from blk obtain third where rows: "tableRows s T =
          Some ([(js ''th'', [Markup name])] # [(js ''td'', [Node D])] # third)"
    and third: "case link of None \<Rightarrow> third = []
           | Some a \<Rightarrow> \<exists>kids. third = [[(js ''td'', kids)]] \<and> subseq kids [Node a]"
    and NT: "N \<le> T"
    and new: "\<forall>t. Node t \<in> set (childNodes (s ! T)) \<longrightarrow>
           N \<le> t \<and> (\<forall>c. Node c \<in> set (childNodes (s ! t)) \<longrightarrow> N \<le> c)"
    and ND: "N \<le> D" and Dl: "D < length s" and Dt: "tagName (s ! D) = js ''div''"
    and Dk: "childNodes (s ! D) = dk"
    and dk: "\<forall>c. Node c \<in> set dk \<longrightarrow> c < length s \<and> tagName (s ! c) \<noteq> js ''a''"
    and pT: "parentNode (s ! T) = par"
    unfolding blockAt_def by blast
  note nodes = tableRows_nodes [OF rows]
  have A: "\<forall>r\<in>?A. length s \<le> r \<or> tagName (s ! r) = js ''a''" using lk by auto
  have tags: "js ''th'' \<noteq> js ''a''" "js ''td'' \<noteq> js ''a''" "js ''div'' \<noteq> js ''a''"
    "js ''table'' \<noteq> js ''a''"
    by (simp_all add: js_def)
  have cells: "\<forall>row\<in>set ([(js ''th'', [Markup name])] # [(js ''td'', [Node D])] # third).
      \<forall>cell\<in>set row. fst cell \<noteq> js ''a''"
    using third tags by (cases link) auto
  have kids: "\<forall>x<length s. N \<le> x \<longrightarrow>
        subseq (childNodes (?s1 ! x)) (childNodes (s ! x))
        \<and> ((\<forall>r\<in>?A. Node r \<notin> set (childNodes (s ! x))) \<longrightarrow>
              childNodes (?s1 ! x) = childNodes (s ! x))"
    by (rule parts(9))
  have tags': "\<forall>x<length s. N \<le> x \<longrightarrow> tagName (?s1 ! x) = tagName (s ! x)"
    using tg by simp
  from tableRows_thin [OF rows len tags' kids NT new A cells]
  obtain rows' where r': "tableRows ?s1 T = Some rows'"
    and rel: "list_all2 (list_all2 ?R) rows'
        ([(js ''th'', [Markup name])] # [(js ''td'', [Node D])] # third)"
    by blast
  from rel obtain x' y' third' where rs: "rows' = x' # y' # third'"
    and rx: "list_all2 ?R x' [(js ''th'', [Markup name])]"
    and ry: "list_all2 ?R y' [(js ''td'', [Node D])]"
    and rt: "list_all2 (list_all2 ?R) third' third"
    by (auto simp add: list_all2_Cons2)
  have x': "x' = [(js ''th'', [Markup name])]"
    using rx by (auto simp add: list_all2_Cons2 prod_eq_iff)
  have DA: "D \<notin> ?A"
  proof
    assume "D \<in> ?A"
    then have "length s \<le> D \<or> tagName (s ! D) = js ''a''" using A by blast
    then show False using Dl Dt tags by simp
  qed
  have y': "y' = [(js ''td'', [Node D])]"
    using ry DA by (auto simp add: list_all2_Cons2 prod_eq_iff)
  have t': "case link of None \<Rightarrow> third' = []
           | Some a \<Rightarrow> \<exists>kids. third' = [[(js ''td'', kids)]] \<and> subseq kids [Node a]"
  proof (cases link)
    case None
    then show ?thesis using third rt by simp
  next
    case (Some a)
    with third obtain ks where th: "third = [[(js ''td'', ks)]]" and sub: "subseq ks [Node a]"
      by auto
    from rt obtain cell where t3: "third' = [[cell]]" and cr: "?R cell (js ''td'', ks)"
      unfolding th by (auto simp add: list_all2_Cons2)
    have "subseq (snd cell) [Node a]" using cr sub subseq_order.trans by auto
    moreover have "cell = (js ''td'', snd cell)" using cr by (simp add: prod_eq_iff)
    ultimately show ?thesis using Some t3 by auto
  qed
  have rows1: "\<exists>third. tableRows ?s1 T =
          Some ([(js ''th'', [Markup name])] # [(js ''td'', [Node D])] # third)
        \<and> (case link of
             None \<Rightarrow> third = []
           | Some a \<Rightarrow> \<exists>kids. third = [[(js ''td'', kids)]] \<and> subseq kids [Node a])"
    using r' rs x' y' t' by blast
  have sub: "Node t \<in> set (childNodes (s ! x))"
    if "Node t \<in> set (childNodes (?s1 ! x))" "x < length s" "N \<le> x" for t x
  proof -
    have "subseq (childNodes (?s1 ! x)) (childNodes (s ! x))" using kids that by simp
    then show ?thesis using that(1) by (rule subseq_subset)
  qed
  have new1: "\<forall>t. Node t \<in> set (childNodes (?s1 ! T)) \<longrightarrow>
           N \<le> t \<and> (\<forall>c. Node c \<in> set (childNodes (?s1 ! t)) \<longrightarrow> N \<le> c)"
  proof (intro allI impI)
    fix t assume "Node t \<in> set (childNodes (?s1 ! T))"
    then have t: "Node t \<in> set (childNodes (s ! T))" using nodes(1) NT by (rule sub)
    then have tl: "t < length s" by (rule nodes(3))
    have Nt: "N \<le> t" using new t by simp
    have "N \<le> c" if "Node c \<in> set (childNodes (?s1 ! t))" for c
    proof -
      from that tl Nt have "Node c \<in> set (childNodes (s ! t))" by (rule sub)
      then show ?thesis using new t by simp
    qed
    then show "N \<le> t \<and> (\<forall>c. Node c \<in> set (childNodes (?s1 ! t)) \<longrightarrow> N \<le> c)"
      using Nt by simp
  qed
  have "\<forall>r\<in>?A. Node r \<notin> set (childNodes (s ! D))"
  proof
    fix r assume r: "r \<in> ?A"
    show "Node r \<notin> set (childNodes (s ! D))"
    proof
      assume "Node r \<in> set (childNodes (s ! D))"
      then have "r < length s \<and> tagName (s ! r) \<noteq> js ''a''" using dk Dk by simp
      moreover have "length s \<le> r \<or> tagName (s ! r) = js ''a''" using A r by blast
      ultimately show False by simp
    qed
  qed
  then have Dk1: "childNodes (?s1 ! D) = dk" using kids Dl ND Dk by simp
  have dk1: "\<forall>c. Node c \<in> set dk \<longrightarrow> c < length ?s1 \<and> tagName (?s1 ! c) \<noteq> js ''a''"
    using dk len tg by auto
  have "T \<noteq> c" using cN NT by simp
  moreover have "calloutLink Q s c \<noteq> Some T" using lk nodes(2) tags by auto
  ultimately have pT1: "parentNode (?s1 ! T) = par" using parts(8) nodes(1) pT by simp
  have Dl1: "D < length ?s1" using Dl len by simp
  have Dt1: "tagName (?s1 ! D) = js ''div''" using tg [OF Dl] Dt by simp
  show ?thesis
    unfolding blockAt_def using rows1 NT new1 ND Dl1 Dt1 Dk1 dk1 pT1 by blast
qed

lemma blockAt_foldl:
  assumes "calloutsOk Q N s cs" and "blockAt s N T D name link dk par"
  shows "blockAt (foldl (calloutStep Q) s cs) N T D name link dk par"
  using assms
proof (induction cs arbitrary: s)
  case Nil
  then show ?case by simp
next
  case (Cons c cs)
  have "calloutsOk Q N (calloutStep Q s c) cs" using Cons.prems(1) by (rule calloutsOk_step(1))
  moreover have "blockAt (calloutStep Q s c) N T D name link dk par"
    using Cons.prems by (rule blockAt_step)
  ultimately show ?case using Cons.IH by simp
qed

lemma calloutsOk_foldl:
  assumes "calloutsOk Q N s (xs @ ys)"
  shows "calloutsOk Q N (foldl (calloutStep Q) s xs) ys
    \<and> grows s (foldl (calloutStep Q) s xs)
    \<and> (\<forall>x<length s. attributes (foldl (calloutStep Q) s xs ! x) = attributes (s ! x))
    \<and> (\<forall>x\<in>set ys. parentNode (foldl (calloutStep Q) s xs ! x) = parentNode (s ! x))"
  using assms
proof (induction xs arbitrary: s)
  case Nil
  then show ?case by (simp add: grows_def)
next
  case (Cons c xs)
  let ?s1 = "calloutStep Q s c"
  let ?F = "foldl (calloutStep Q) ?s1 xs"
  from Cons.prems have ok: "calloutsOk Q N s (c # (xs @ ys))" by simp
  note st = calloutsOk_step [OF ok]
  from Cons.IH [OF st(1)]
  have ih1: "calloutsOk Q N ?F ys" and ih2: "grows ?s1 ?F"
    and ih3: "\<And>x. x < length ?s1 \<Longrightarrow> attributes (?F ! x) = attributes (?s1 ! x)"
    and ih4: "\<And>x. x \<in> set ys \<Longrightarrow> parentNode (?F ! x) = parentNode (?s1 ! x)"
    by blast+
  have g: "grows s ?F" using st(2) ih2 by (rule grows_trans)
  have l: "length s \<le> length ?s1" using st(2) by (simp add: grows_def)
  have a: "attributes (?F ! x) = attributes (s ! x)" if "x < length s" for x
  proof -
    have "attributes (?F ! x) = attributes (?s1 ! x)" using that l by (intro ih3) simp
    also have "\<dots> = attributes (s ! x)" using st(3) that by blast
    finally show ?thesis .
  qed
  have p: "parentNode (?F ! x) = parentNode (s ! x)" if "x \<in> set ys" for x
  proof -
    have "parentNode (?F ! x) = parentNode (?s1 ! x)" using that by (rule ih4)
    also have "\<dots> = parentNode (s ! x)" using st(4) that by simp
    finally show ?thesis .
  qed
  have "foldl (calloutStep Q) s (c # xs) = ?F" by simp
  then show ?case using ih1 g a p by (simp only:) blast
qed

lemma calloutName_cong:
  "attributes (s' ! c) = attributes (s ! c) \<Longrightarrow> calloutName s' c = calloutName s c"
  unfolding calloutName_def classList_contains_def getAttribute_def
  by (simp cong: if_cong)

lemma createCallouts_blocks:
  assumes ok: "calloutsOk Q N s cs" and k: "k < length cs"
  shows "blockAt (foldl (calloutStep Q) s cs) N
      (calloutTable Q (turnStore Q s cs k) (cs ! k))
      (length (turnStore Q s cs k))
      (calloutName s (cs ! k))
      (calloutLink Q (turnStore Q s cs k) (cs ! k))
      (childNodes (snd (calloutContainer Q (cs ! k) (turnStore Q s cs k))
         ! length (turnStore Q s cs k)))
      (parentNode (s ! (cs ! k)))"
    and "grows s (turnStore Q s cs k)"
proof -
  let ?c = "cs ! k"
  let ?sk = "turnStore Q s cs k"
  let ?xs = "take k cs"
  let ?ys = "drop (Suc k) cs"
  have cs: "?xs @ ?c # ?ys = cs" using k by (rule id_take_nth_drop [symmetric])
  have sk: "?sk = foldl (calloutStep Q) s ?xs" by (simp add: turnStore_def)
  have "calloutsOk Q N s (?xs @ ?c # ?ys)" using ok by (simp only: cs)
  note pre = calloutsOk_foldl [OF this, folded sk]
  then have okk: "calloutsOk Q N ?sk (?c # ?ys)" by blast
  show "grows s ?sk" using pre by blast
  from ok k have cN: "?c < N" and N: "N \<le> length s" by (simp_all add: calloutsOk_def)
  then have "attributes (?sk ! ?c) = attributes (s ! ?c)" using pre by simp
  then have name: "calloutName ?sk ?c = calloutName s ?c" by (rule calloutName_cong)
  have par: "parentNode (?sk ! ?c) = parentNode (s ! ?c)" using pre by simp
  have "foldl (calloutStep Q) s (?xs @ ?c # ?ys) =
      foldl (calloutStep Q) (calloutStep Q ?sk ?c) ?ys"
    by (simp only: foldl_append foldl_Cons sk)
  then have fin: "foldl (calloutStep Q) s cs = foldl (calloutStep Q) (calloutStep Q ?sk ?c) ?ys"
    by (simp only: cs)
  have "blockAt (calloutStep Q ?sk ?c) N (calloutTable Q ?sk ?c) (length ?sk) (calloutName s ?c)
      (calloutLink Q ?sk ?c) (childNodes (snd (calloutContainer Q ?c ?sk) ! length ?sk))
      (parentNode (s ! ?c))"
    using blockAt_new [OF okk] by (simp only: name par)
  with calloutsOk_step(1) [OF okk]
  show "blockAt (foldl (calloutStep Q) s cs) N (calloutTable Q ?sk ?c) (length ?sk)
      (calloutName s ?c) (calloutLink Q ?sk ?c)
      (childNodes (snd (calloutContainer Q ?c ?sk) ! length ?sk)) (parentNode (s ! ?c))"
    unfolding fin by (rule blockAt_foldl)
qed

lemma calloutsOk_start:
  assumes "distinct callouts"
    and "\<forall>c\<in>set callouts. c < length h \<and> tagName (h ! c) \<noteq> js ''a''
        \<and> (\<forall>p. parentNode (h ! c) = Some p \<longrightarrow> p < length h)"
    and "linksFound Q h"
  shows "calloutsOk Q (length h) h callouts"
  using assms by (simp add: calloutsOk_def)

lemma calloutRows_eq:
  "calloutRows Q c s =
     ([Str (calloutName s c)] # [Elem (length s)]
        # (case calloutLink Q s c of None \<Rightarrow> [] | Some a \<Rightarrow> [[Elem a]]),
      snd (calloutContainer Q c s))"
proof -
  have "fst (calloutContainer Q c s) = length s"
    using calloutContainer_spec [of Q c s] by blast
  then show ?thesis
    by (cases "calloutContainer Q c s")
      (simp add: calloutRows_def calloutLink_def Let_def split: option.splits)
qed

lemma calloutTable_eq: "calloutTable Q s c = length (snd (calloutContainer Q c s))"
  by (simp add: calloutTable_def calloutRows_eq createTable_fst)

lemma createTable_length_rows:
  "length (snd (createTable [[Str a], [Elem d]] h)) = length h + 5"
  "length (snd (createTable [[Str a], [Elem d], [Elem e]] h)) = length h + 7"
  by (simp_all add: createTable_def createRow_def createCell_def fillCell_def appendChild_def
      Let_def split_def createElement_length node_append_length set_innerHTML_length upt_rec)

lemma calloutStep_length:
  "length (calloutStep Q s c) =
     calloutTable Q s c + (case calloutLink Q s c of None \<Rightarrow> 5 | Some a \<Rightarrow> 7)"
  by (simp add: calloutStep_def calloutRows_eq calloutTable_eq split_def Let_def
      replaceWith_length createTable_length_rows split: option.splits)

lemma callouts_page_facts:
  "length callouts_page = 5"
  "\<forall>c\<in>set [2, 4]. c < length callouts_page \<and> tagName (callouts_page ! c) \<noteq> js ''a''
      \<and> (\<forall>p. parentNode (callouts_page ! c) = Some p \<longrightarrow> p < length callouts_page)"
  "parentNode (callouts_page ! 2) = Some 0" "parentNode (callouts_page ! 4) = Some 0"
  "classList_contains callouts_page 2 (js ''blogPostContent__ctaContainer--right'')"
  "\<not> classList_contains callouts_page 4 (js ''blogPostContent__ctaContainer--right'')"
  "\<not> classList_contains callouts_page 4 (js ''blogPostContent__ctaContainer--left'')"
  by (simp_all add: callouts_page_def classList_contains_def getAttribute_def nullToEmpty_def
      js_def isAsciiWhitespace_def)

lemma callouts_dom_facts:
  "querySelectorAll callouts_dom callouts_page 0 (js ''.blogPostContent__ctaContainer'') = [2, 4]"
  "linksFound callouts_dom callouts_page"
  "\<And>s. calloutLink callouts_dom s 2 = Some 3"
  "\<And>s. calloutLink callouts_dom s 4 = None"
  "\<And>s sel. querySelector callouts_dom s 4 sel = None"
  "\<And>s. calloutTable callouts_dom s 2 = length s + 2"
  "\<And>s. calloutTable callouts_dom s 4 = length s + 1"
proof -
  have sel: "js ''a'' \<noteq> js ''.blogPostContent__ctaText''"
    "js ''.blogPostContent__ctaSubheading'' \<noteq> js ''.blogPostContent__ctaText''"
    "js ''.blogPostContent__ctaSubheading'' \<noteq> js ''a''"
    by (simp_all add: js_def)
  show "querySelectorAll callouts_dom callouts_page 0 (js ''.blogPostContent__ctaContainer'') = [2, 4]"
    by (simp add: callouts_dom_def)
  have t3: "tagName (callouts_page ! 3) = js ''a''" by (simp add: callouts_page_def)
  show "linksFound callouts_dom callouts_page"
    unfolding linksFound_def grows_def
  proof (intro allI impI)
    fix s c a
    assume a: "(length callouts_page \<le> length s
        \<and> (\<forall>x<length callouts_page. tagName (s ! x) = tagName (callouts_page ! x)))
      \<and> querySelector callouts_dom s c (js ''a'') = Some a"
    then have "a = 3" using sel by (simp add: callouts_dom_def split: if_splits)
    moreover have "3 < length s" "tagName (s ! 3) = tagName (callouts_page ! 3)"
      using a callouts_page_facts(1) by simp_all
    ultimately show "a < length s \<and> tagName (s ! a) = js ''a''" using t3 by simp
  qed
  show "calloutLink callouts_dom s 2 = Some 3" for s
    using sel by (simp add: calloutLink_def callouts_dom_def)
  show q4: "querySelector callouts_dom s 4 sel = None" for s sel
    by (simp add: callouts_dom_def)
  show "calloutLink callouts_dom s 4 = None" for s
    by (simp add: calloutLink_def q4)
  have q1: "querySelector callouts_dom x 2 (js ''.blogPostContent__ctaText'') = Some 1"
    "querySelector callouts_dom x 2 (js ''.blogPostContent__ctaSubheading'') = None" for x
    using sel by (simp_all add: callouts_dom_def)
  show "calloutTable callouts_dom s 2 = length s + 2" for s
    by (simp add: calloutTable_eq calloutContainer_def q1 split_def Let_def
        createElement_length node_append_length set_innerHTML_length)
  show "calloutTable callouts_dom s 4 = length s + 1" for s
    by (simp add: calloutTable_eq calloutContainer_def q4 split_def Let_def
        createElement_length)
qed

lemma callouts_turns:
  "turnStore callouts_dom callouts_page [2, 4] 0 = callouts_page"
  "turnStore callouts_dom callouts_page [2, 4] 1 = calloutStep callouts_dom callouts_page 2"
  "length (calloutStep callouts_dom callouts_page 2) = 14"
  by (simp_all add: turnStore_def calloutStep_length callouts_dom_facts callouts_page_facts(1))

lemma turnStore_0: "turnStore Q s cs 0 = s"
  by (simp add: turnStore_def)

lemma turnStore_Cons: "turnStore Q s (c # cs) (Suc j) = turnStore Q (calloutStep Q s c) cs j"
  by (simp add: turnStore_def)

lemma turnStore_later:
  assumes "k < length cs"
  shows "turnStore Q (calloutStep Q (turnStore Q s cs k) (cs ! k)) (drop (Suc k) cs) j =
      turnStore Q s cs (Suc k + j)"
proof -
  have "take (Suc k + j) cs = take (Suc k) cs @ take j (drop (Suc k) cs)"
    by (rule take_add)
  also have "take (Suc k) cs = take k cs @ [cs ! k]"
    using assms by (rule take_Suc_conv_app_nth)
  finally show ?thesis by (simp add: turnStore_def)
qed

lemma linkRow_step:
  assumes ok: "calloutsOk Q N s (c # cs)"
    and blk: "blockAt s N T D name (Some a) dk par"
    and ex: "map_option (\<lambda>rows. rows ! 2) (tableRows s T) = Some [(js ''td'', [Node a])]"
    and al: "a < length s"
    and ne: "calloutLink Q s c \<noteq> Some a"
  shows "map_option (\<lambda>rows. rows ! 2) (tableRows (calloutStep Q s c) T) =
      Some [(js ''td'', [Node a])]"
proof -
  let ?s1 = "calloutStep Q s c"
  let ?A = "insert (length s) (set_option (calloutLink Q s c))"
  let ?R = "\<lambda>c' c. fst c' = fst c \<and> subseq (snd c') (snd c)
          \<and> ((\<forall>r\<in>?A. Node r \<notin> set (snd c)) \<longrightarrow> snd c' = snd c)"
  from ok have N: "N \<le> length s" and cN: "c < N"
    and par: "\<forall>p. parentNode (s ! c) = Some p \<longrightarrow> p < N"
    by (simp_all add: calloutsOk_def)
  have cl: "c < length s" using cN N by simp
  note lk = calloutsOk_link [OF ok]
  then have link: "\<forall>a. calloutLink Q s c = Some a \<longrightarrow> a < length s \<and> a \<noteq> c" by blast
  note parts = calloutStep_parts [OF cl link N par]
  note g = calloutsOk_step(2) [OF ok]
  then have len: "length s \<le> length ?s1"
    and tags': "\<forall>x<length s. N \<le> x \<longrightarrow> tagName (?s1 ! x) = tagName (s ! x)"
    by (simp_all add: grows_def)
  from blk obtain third where rows0: "tableRows s T =
          Some ([(js ''th'', [Markup name])] # [(js ''td'', [Node D])] # third)"
    and third: "\<exists>kids. third = [[(js ''td'', kids)]] \<and> subseq kids [Node a]"
    and NT: "N \<le> T"
    and new: "\<forall>t. Node t \<in> set (childNodes (s ! T)) \<longrightarrow>
           N \<le> t \<and> (\<forall>c. Node c \<in> set (childNodes (s ! t)) \<longrightarrow> N \<le> c)"
    unfolding blockAt_def by auto
  from third ex rows0 have rows: "tableRows s T =
      Some ([(js ''th'', [Markup name])] # [(js ''td'', [Node D])] # [[(js ''td'', [Node a])]])"
    by auto
  have A: "\<forall>r\<in>?A. length s \<le> r \<or> tagName (s ! r) = js ''a''" using lk by auto
  have tags: "js ''th'' \<noteq> js ''a''" "js ''td'' \<noteq> js ''a''" by (simp_all add: js_def)
  have cells: "\<forall>row\<in>set ([(js ''th'', [Markup name])] # [(js ''td'', [Node D])]
        # [[(js ''td'', [Node a])]]).
      \<forall>cell\<in>set row. fst cell \<noteq> js ''a''"
    using tags by simp
  from tableRows_thin [OF rows len tags' parts(9) NT new A cells]
  obtain rows' where r': "tableRows ?s1 T = Some rows'"
    and rel: "list_all2 (list_all2 ?R) rows'
        ([(js ''th'', [Markup name])] # [(js ''td'', [Node D])] # [[(js ''td'', [Node a])]])"
    by blast
  from rel obtain x' y' cell where rs: "rows' = [x', y', [cell]]"
    and rc: "?R cell (js ''td'', [Node a])"
    by (auto simp add: list_all2_Cons2)
  have "a \<notin> ?A" using al ne by auto
  then have "cell = (js ''td'', [Node a])" using rc by (auto simp add: prod_eq_iff)
  then show ?thesis using r' rs by simp
qed

lemma linkRow_foldl:
  assumes "calloutsOk Q N s ys"
    and "blockAt s N T D name (Some a) dk par"
    and "map_option (\<lambda>rows. rows ! 2) (tableRows s T) = Some [(js ''td'', [Node a])]"
    and "a < length s"
    and "\<forall>j<length ys. calloutLink Q (turnStore Q s ys j) (ys ! j) \<noteq> Some a"
  shows "map_option (\<lambda>rows. rows ! 2) (tableRows (foldl (calloutStep Q) s ys) T) =
      Some [(js ''td'', [Node a])]"
  using assms
proof (induction ys arbitrary: s)
  case Nil
  then show ?case by simp
next
  case (Cons c ys)
  let ?s1 = "calloutStep Q s c"
  have ne: "calloutLink Q s c \<noteq> Some a"
    using Cons.prems(5) [rule_format, of 0] by (simp add: turnStore_0)
  have later: "\<forall>j<length ys. calloutLink Q (turnStore Q ?s1 ys j) (ys ! j) \<noteq> Some a"
  proof (intro allI impI)
    fix j assume "j < length ys"
    then show "calloutLink Q (turnStore Q ?s1 ys j) (ys ! j) \<noteq> Some a"
      using Cons.prems(5) [rule_format, of "Suc j"] by (simp add: turnStore_Cons)
  qed
  have ok1: "calloutsOk Q N ?s1 ys" using Cons.prems(1) by (rule calloutsOk_step(1))
  have blk1: "blockAt ?s1 N T D name (Some a) dk par"
    using Cons.prems(1,2) by (rule blockAt_step)
  have ex1: "map_option (\<lambda>rows. rows ! 2) (tableRows ?s1 T) = Some [(js ''td'', [Node a])]"
    using Cons.prems(1,2,3,4) ne by (rule linkRow_step)
  have "length s \<le> length ?s1" using calloutsOk_step(2) [OF Cons.prems(1)] by (simp add: grows_def)
  then have al1: "a < length ?s1" using Cons.prems(4) by simp
  show ?case using Cons.IH [OF ok1 blk1 ex1 al1 later] by simp
qed

lemma createCallouts_link_row:
  assumes ok: "calloutsOk Q N s cs" and k: "k < length cs"
    and a: "calloutLink Q (turnStore Q s cs k) (cs ! k) = Some a"
    and later: "\<forall>j<length cs. k < j \<longrightarrow> calloutLink Q (turnStore Q s cs j) (cs ! j) \<noteq> Some a"
  shows "map_option (\<lambda>rows. rows ! 2)
      (tableRows (foldl (calloutStep Q) s cs) (calloutTable Q (turnStore Q s cs k) (cs ! k))) =
      Some [(js ''td'', [Node a])]"
proof -
  let ?c = "cs ! k"
  let ?sk = "turnStore Q s cs k"
  let ?xs = "take k cs"
  let ?ys = "drop (Suc k) cs"
  let ?s1 = "calloutStep Q ?sk ?c"
  let ?T = "calloutTable Q ?sk ?c"
  have cs: "?xs @ ?c # ?ys = cs" using k by (rule id_take_nth_drop [symmetric])
  have sk: "?sk = foldl (calloutStep Q) s ?xs" by (simp add: turnStore_def)
  have "calloutsOk Q N s (?xs @ ?c # ?ys)" using ok by (simp only: cs)
  note pre = calloutsOk_foldl [OF this, folded sk]
  then have okk: "calloutsOk Q N ?sk (?c # ?ys)" by blast
  have ok1: "calloutsOk Q N ?s1 ?ys" using okk by (rule calloutsOk_step(1))
  have "foldl (calloutStep Q) s (?xs @ ?c # ?ys) = foldl (calloutStep Q) ?s1 ?ys"
    by (simp only: foldl_append foldl_Cons sk)
  then have fin: "foldl (calloutStep Q) s cs = foldl (calloutStep Q) ?s1 ?ys"
    by (simp only: cs)
  note new = blockAt_new [OF okk, unfolded a]
  from okk have N: "N \<le> length ?sk" and cN: "?c < N"
    and par: "\<forall>p. parentNode (?sk ! ?c) = Some p \<longrightarrow> p < N"
    by (simp_all add: calloutsOk_def)
  have cl: "?c < length ?sk" using cN N by simp
  note lk = calloutsOk_link [OF okk]
  then have link: "\<forall>a. calloutLink Q ?sk ?c = Some a \<longrightarrow> a < length ?sk \<and> a \<noteq> ?c" by blast
  have ex: "map_option (\<lambda>rows. rows ! 2) (tableRows ?s1 ?T) = Some [(js ''td'', [Node a])]"
    using calloutStep_parts(1) [OF cl link N par] a by simp
  have "length ?sk \<le> length ?s1" using calloutsOk_step(2) [OF okk] by (simp add: grows_def)
  moreover have "a < length ?sk" using lk a by simp
  ultimately have al: "a < length ?s1" by simp
  have lat: "\<forall>j<length ?ys. calloutLink Q (turnStore Q ?s1 ?ys j) (?ys ! j) \<noteq> Some a"
  proof (intro allI impI)
    fix j assume j: "j < length ?ys"
    then have "Suc k + j < length cs" by simp
    moreover have "?ys ! j = cs ! (Suc k + j)" using j by simp
    ultimately show "calloutLink Q (turnStore Q ?s1 ?ys j) (?ys ! j) \<noteq> Some a"
      using later by (simp add: turnStore_later [OF k])
  qed
  show ?thesis
    unfolding fin using ok1 new ex al lat by (rule linkRow_foldl)
qed

text \<open>
  Claim C7. Let \<open>callouts\<close> be the answer of the main region to the selector of the callout
  containers: nodes of the store, each once, none of them a link, each with its parent
  (if any) in the store; and let the DOM library answer the selector \<open>a\<close> as every
  library does (\<open>linksFound\<close>). Then for every callout of the list, the table built
  at its turn is, in the store that \<open>createCallouts\<close> leaves, a new node under the parent
  that the callout had, and its header row has one cell, which holds the block name:
  \<open>Callout (right)\<close> when the callout carries the right-modifier class, \<open>Callout (left)\<close>
  when it carries the left-modifier class (and not the right one), \<open>Callout\<close> when it
  carries neither.
\<close>

theorem createCallouts_block_names:
  assumes q: "querySelectorAll Q h main (js ''.blogPostContent__ctaContainer'') = callouts"
    and dist: "distinct callouts"
    and valid: "\<forall>c\<in>set callouts. c < length h \<and> tagName (h ! c) \<noteq> js ''a''
        \<and> (\<forall>p. parentNode (h ! c) = Some p \<longrightarrow> p < length h)"
    and lf: "linksFound Q h"
    and k: "k < length callouts"
  shows "map_option hd (tableRows (createCallouts Q main h)
            (calloutTable Q (turnStore Q h callouts k) (callouts ! k))) =
      Some [(js ''th'',
             [Markup (if classList_contains h (callouts ! k)
                           (js ''blogPostContent__ctaContainer--right'')
                      then js ''Callout (right)''
                      else if classList_contains h (callouts ! k)
                           (js ''blogPostContent__ctaContainer--left'')
                      then js ''Callout (left)''
                      else js ''Callout'')])]
    \<and> length h \<le> calloutTable Q (turnStore Q h callouts k) (callouts ! k)
    \<and> parentNode (createCallouts Q main h
          ! calloutTable Q (turnStore Q h callouts k) (callouts ! k)) =
        parentNode (h ! (callouts ! k))"
proof -
  let ?c = "callouts ! k"
  let ?T = "calloutTable Q (turnStore Q h callouts k) ?c"
  have eq: "createCallouts Q main h = foldl (calloutStep Q) h callouts"
    by (simp add: createCallouts_def q)
  have ok: "calloutsOk Q (length h) h callouts" using dist valid lf by (rule calloutsOk_start)
  from createCallouts_blocks(1) [OF ok k, folded eq]
  obtain third where rows: "tableRows (createCallouts Q main h) ?T =
      Some ([(js ''th'', [Markup (calloutName h ?c)])]
            # [(js ''td'', [Node (length (turnStore Q h callouts k))])] # third)"
    and new: "length h \<le> ?T"
    and par: "parentNode (createCallouts Q main h ! ?T) = parentNode (h ! ?c)"
    unfolding blockAt_def by blast
  have name: "calloutName h ?c =
      (if classList_contains h ?c (js ''blogPostContent__ctaContainer--right'')
       then js ''Callout (right)''
       else if classList_contains h ?c (js ''blogPostContent__ctaContainer--left'')
       then js ''Callout (left)''
       else js ''Callout'')"
    by (simp add: calloutName_def Let_def js_def)
  have "map_option hd (tableRows (createCallouts Q main h) ?T) =
      Some [(js ''th'', [Markup (calloutName h ?c)])]"
    using rows by simp
  then have "map_option hd (tableRows (createCallouts Q main h) ?T) =
      Some [(js ''th'',
             [Markup (if classList_contains h ?c (js ''blogPostContent__ctaContainer--right'')
                      then js ''Callout (right)''
                      else if classList_contains h ?c (js ''blogPostContent__ctaContainer--left'')
                      then js ''Callout (left)''
                      else js ''Callout'')])]"
    by (simp only: name)
  with new par show ?thesis by blast
qed

theorem createCallouts_block_names_witness:
  "map_option hd (tableRows (createCallouts callouts_dom 0 callouts_page) 7) =
     Some [(js ''th'', [Markup (js ''Callout (right)'')])]
   \<and> parentNode (createCallouts callouts_dom 0 callouts_page ! 7) = Some 0
   \<and> map_option hd (tableRows (createCallouts callouts_dom 0 callouts_page) 15) =
     Some [(js ''th'', [Markup (js ''Callout'')])]
   \<and> parentNode (createCallouts callouts_dom 0 callouts_page ! 15) = Some 0"
proof -
  have d: "distinct [2, 4 :: nat]" by simp
  have k0: "0 < length [2, 4 :: nat]" and k1: "1 < length [2, 4 :: nat]" by simp_all
  note A = createCallouts_block_names [OF callouts_dom_facts(1) d callouts_page_facts(2)
      callouts_dom_facts(2) k0]
  note B = createCallouts_block_names [OF callouts_dom_facts(1) d callouts_page_facts(2)
      callouts_dom_facts(2) k1]
  have c0: "[2, 4 :: nat] ! 0 = 2" and c1: "[2, 4 :: nat] ! 1 = 4" by simp_all
  have T0: "calloutTable callouts_dom callouts_page 2 = 7"
    by (simp add: callouts_dom_facts callouts_page_facts(1))
  have T1: "calloutTable callouts_dom (calloutStep callouts_dom callouts_page 2) 4 = 15"
    by (simp add: callouts_dom_facts callouts_turns(3))
  from A [unfolded c0 callouts_turns(1) T0] callouts_page_facts(3,5)
  have a: "map_option hd (tableRows (createCallouts callouts_dom 0 callouts_page) 7) =
     Some [(js ''th'', [Markup (js ''Callout (right)'')])]
   \<and> parentNode (createCallouts callouts_dom 0 callouts_page ! 7) = Some 0"
    by simp
  from B [unfolded c1 callouts_turns(2) T1] callouts_page_facts(4,6,7)
  have b: "map_option hd (tableRows (createCallouts callouts_dom 0 callouts_page) 15) =
     Some [(js ''th'', [Markup (js ''Callout'')])]
   \<and> parentNode (createCallouts callouts_dom 0 callouts_page ! 15) = Some 0"
    by simp
  from a b show ?thesis by blast
qed

text \<open>
  Claim C10. Under the same conditions, the table built at the turn of a callout reads
  back, in the store that \<open>createCallouts\<close> leaves, with two rows when the query for a link
  in the callout, at its turn, finds none, and with three rows when it finds one. The
  second row has one cell, which holds the container: a new \<open>div\<close>, which has no children
  when the queries for the heading text and for the subheading find nothing. The third
  row has one cell, for the link that was found; the cell holds that link when no later
  turn finds the same link again, and is empty when a later turn has taken it.
\<close>

theorem createCallouts_block_rows:
  assumes q: "querySelectorAll Q h main (js ''.blogPostContent__ctaContainer'') = callouts"
    and dist: "distinct callouts"
    and valid: "\<forall>c\<in>set callouts. c < length h \<and> tagName (h ! c) \<noteq> js ''a''
        \<and> (\<forall>p. parentNode (h ! c) = Some p \<longrightarrow> p < length h)"
    and lf: "linksFound Q h"
    and k: "k < length callouts"
  shows "map_option length (tableRows (createCallouts Q main h)
            (calloutTable Q (turnStore Q h callouts k) (callouts ! k))) =
      Some (if calloutLink Q (turnStore Q h callouts k) (callouts ! k) = None then 2 else 3)
    \<and> map_option (\<lambda>rows. rows ! 1) (tableRows (createCallouts Q main h)
            (calloutTable Q (turnStore Q h callouts k) (callouts ! k))) =
      Some [(js ''td'', [Node (length (turnStore Q h callouts k))])]
    \<and> length h \<le> length (turnStore Q h callouts k)
    \<and> tagName (createCallouts Q main h ! length (turnStore Q h callouts k)) = js ''div''
    \<and> (querySelector Q (snd (createElement (js ''div'') (turnStore Q h callouts k)))
          (callouts ! k) (js ''.blogPostContent__ctaText'') = None
       \<and> querySelector Q (snd (createElement (js ''div'') (turnStore Q h callouts k)))
          (callouts ! k) (js ''.blogPostContent__ctaSubheading'') = None
       \<longrightarrow> childNodes (createCallouts Q main h ! length (turnStore Q h callouts k)) = [])
    \<and> (\<forall>a. calloutLink Q (turnStore Q h callouts k) (callouts ! k) = Some a \<longrightarrow>
          (\<exists>kids. map_option (\<lambda>rows. rows ! 2) (tableRows (createCallouts Q main h)
                (calloutTable Q (turnStore Q h callouts k) (callouts ! k))) =
              Some [(js ''td'', kids)]
            \<and> subseq kids [Node a])
          \<and> ((\<forall>j<length callouts. k < j \<longrightarrow>
                  calloutLink Q (turnStore Q h callouts j) (callouts ! j) \<noteq> Some a) \<longrightarrow>
               map_option (\<lambda>rows. rows ! 2) (tableRows (createCallouts Q main h)
                 (calloutTable Q (turnStore Q h callouts k) (callouts ! k))) =
               Some [(js ''td'', [Node a])]))"
proof -
  let ?c = "callouts ! k"
  let ?sk = "turnStore Q h callouts k"
  let ?T = "calloutTable Q ?sk ?c"
  let ?h' = "createCallouts Q main h"
  have eq: "?h' = foldl (calloutStep Q) h callouts"
    by (simp add: createCallouts_def q)
  have ok: "calloutsOk Q (length h) h callouts" using dist valid lf by (rule calloutsOk_start)
  from createCallouts_blocks(1) [OF ok k, folded eq]
  obtain third where rows: "tableRows ?h' ?T =
      Some ([(js ''th'', [Markup (calloutName h ?c)])] # [(js ''td'', [Node (length ?sk)])] # third)"
    and third: "case calloutLink Q ?sk ?c of None \<Rightarrow> third = []
           | Some a \<Rightarrow> \<exists>kids. third = [[(js ''td'', kids)]] \<and> subseq kids [Node a]"
    and tag: "tagName (?h' ! length ?sk) = js ''div''"
    and kids: "childNodes (?h' ! length ?sk) =
        childNodes (snd (calloutContainer Q ?c ?sk) ! length ?sk)"
    unfolding blockAt_def by blast
  have c1: "map_option length (tableRows ?h' ?T) =
      Some (if calloutLink Q ?sk ?c = None then 2 else 3)"
    using rows third by (auto split: option.splits)
  have c2: "map_option (\<lambda>rows. rows ! 1) (tableRows ?h' ?T) = Some [(js ''td'', [Node (length ?sk)])]"
    using rows by simp
  have c3: "length h \<le> length ?sk"
    using createCallouts_blocks(2) [OF ok k] by (simp add: grows_def)
  have c5: "childNodes (?h' ! length ?sk) = []"
    if "querySelector Q (snd (createElement (js ''div'') ?sk)) ?c
          (js ''.blogPostContent__ctaText'') = None
       \<and> querySelector Q (snd (createElement (js ''div'') ?sk)) ?c
          (js ''.blogPostContent__ctaSubheading'') = None"
    using that kids calloutContainer_spec [of Q ?c ?sk] by simp
  have c6: "\<exists>kids. map_option (\<lambda>rows. rows ! 2) (tableRows ?h' ?T) = Some [(js ''td'', kids)]
            \<and> subseq kids [Node a]"
    if "calloutLink Q ?sk ?c = Some a" for a
    using that rows third by auto
  have c7: "map_option (\<lambda>rows. rows ! 2) (tableRows ?h' ?T) = Some [(js ''td'', [Node a])]"
    if "calloutLink Q ?sk ?c = Some a"
      and "\<forall>j<length callouts. k < j \<longrightarrow>
          calloutLink Q (turnStore Q h callouts j) (callouts ! j) \<noteq> Some a" for a
    unfolding eq using ok k that by (rule createCallouts_link_row)
  show ?thesis using c1 c2 c3 tag c5 c6 c7 by blast
qed

theorem createCallouts_block_rows_witness:
  "map_option length (tableRows (createCallouts callouts_dom 0 callouts_page) 7) = Some 3
   \<and> map_option (\<lambda>rows. rows ! 1) (tableRows (createCallouts callouts_dom 0 callouts_page) 7) =
       Some [(js ''td'', [Node 5])]
   \<and> tagName (createCallouts callouts_dom 0 callouts_page ! 5) = js ''div''
   \<and> map_option (\<lambda>rows. rows ! 2) (tableRows (createCallouts callouts_dom 0 callouts_page) 7) =
       Some [(js ''td'', [Node 3])]
   \<and> map_option length (tableRows (createCallouts callouts_dom 0 callouts_page) 15) = Some 2
   \<and> map_option (\<lambda>rows. rows ! 1) (tableRows (createCallouts callouts_dom 0 callouts_page) 15) =
       Some [(js ''td'', [Node 14])]
   \<and> tagName (createCallouts callouts_dom 0 callouts_page ! 14) = js ''div''
   \<and> childNodes (createCallouts callouts_dom 0 callouts_page ! 14) = []"
proof -
  let ?h' = "createCallouts callouts_dom 0 callouts_page"
  have d: "distinct [2, 4 :: nat]" by simp
  have k0: "0 < length [2, 4 :: nat]" and k1: "1 < length [2, 4 :: nat]" by simp_all
  note A = createCallouts_block_rows [OF callouts_dom_facts(1) d callouts_page_facts(2)
      callouts_dom_facts(2) k0]
  note B = createCallouts_block_rows [OF callouts_dom_facts(1) d callouts_page_facts(2)
      callouts_dom_facts(2) k1]
  have c0: "[2, 4 :: nat] ! 0 = 2" and c1: "[2, 4 :: nat] ! 1 = 4" by simp_all
  have T0: "calloutTable callouts_dom callouts_page 2 = 7"
    by (simp add: callouts_dom_facts callouts_page_facts(1))
  have T1: "calloutTable callouts_dom (calloutStep callouts_dom callouts_page 2) 4 = 15"
    by (simp add: callouts_dom_facts callouts_turns(3))
  have later: "\<forall>j<length [2, 4 :: nat]. 0 < j \<longrightarrow>
      calloutLink callouts_dom (turnStore callouts_dom callouts_page [2, 4] j) ([2, 4] ! j) \<noteq>
        Some 3"
  proof (intro allI impI)
    fix j :: nat assume "j < length [2, 4 :: nat]" and "0 < j"
    then have "j = 1" by simp
    then show "calloutLink callouts_dom (turnStore callouts_dom callouts_page [2, 4] j)
        ([2, 4] ! j) \<noteq> Some 3"
      by (simp add: callouts_dom_facts)
  qed
  from A [unfolded c0 callouts_turns(1) T0 callouts_page_facts(1)] later
  have a: "map_option length (tableRows ?h' 7) = Some 3
   \<and> map_option (\<lambda>rows. rows ! 1) (tableRows ?h' 7) = Some [(js ''td'', [Node 5])]
   \<and> tagName (?h' ! 5) = js ''div''
   \<and> map_option (\<lambda>rows. rows ! 2) (tableRows ?h' 7) = Some [(js ''td'', [Node 3])]"
    by (simp add: callouts_dom_facts)
  from B [unfolded c1 callouts_turns(2) T1 callouts_turns(3)]
  have b: "map_option length (tableRows ?h' 15) = Some 2
   \<and> map_option (\<lambda>rows. rows ! 1) (tableRows ?h' 15) = Some [(js ''td'', [Node 14])]
   \<and> tagName (?h' ! 14) = js ''div''
   \<and> childNodes (?h' ! 14) = []"
    by (simp add: callouts_dom_facts)
  from a b show ?thesis by blast
qed










lemma prefix_take: "prefix xs ys \<longleftrightarrow> take (length xs) ys = xs"
proof
  assume "prefix xs ys"
  then obtain zs where "ys = xs @ zs" by (rule prefixE)
  then show "take (length xs) ys = xs" by simp
next
  assume "take (length xs) ys = xs"
  then show "prefix xs ys" using take_is_prefix [of "length xs" ys] by simp
qed

lemma embedUrl_embedSrc:
  "embedUrl h f =
     (case embedSrc (getAttribute h f (js ''src'')) of
        None \<Rightarrow> None
      | Some s \<Rightarrow> if s = [] then None else Some s)"
proof -
  have "length (js ''//'') = 2" by (simp add: js_def)
  then have "prefix (js ''//'') s \<longleftrightarrow> take 2 s = js ''//''" for s :: jsstring
    using prefix_take [of "js ''//''" s] by simp
  then show ?thesis
    by (simp add: embedUrl_def embedSrc_def js_def split: option.splits)
qed

lemma embedRows_link:
  "embedRows s = [[(js ''th'', [Markup (js ''Embed'')])], [(js ''td'', [Markup (embedLink s)])]]"
  by (simp add: embedRows_def embedLink_def js_def)

lemma embedStep_eq:
  "embedStep h f =
     (case embedUrl h f of
        None \<Rightarrow> h
      | Some s \<Rightarrow> replaceWith f (length h)
          (snd (createTable [[Str (js ''Embed'')], [Str (embedLink s)]] h)))"
proof (cases "embedUrl h f")
  case None
  then show ?thesis
    by (simp add: embedStep_def embedUrl_embedSrc Let_def split: option.splits if_splits)
next
  case (Some s)
  let ?d = "[[Str (js ''Embed'')], [Str (embedLink s)]]"
  from Some have src: "embedSrc (getAttribute h f (js ''src'')) = Some s" and ne: "s \<noteq> []"
    by (simp_all add: embedUrl_embedSrc split: option.splits if_splits)
  have "embedStep h f = replaceWith f (length h) (snd (createTable ?d h))"
    by (simp add: embedStep_def src ne case_prod_beta createTable_fst)
  with Some show ?thesis by simp
qed

lemma embedLink_nonempty: "embedLink s \<noteq> []"
  by (simp add: embedLink_def)

lemma embedData_length:
  "length (snd (createTable [[Str a], [Str b]] h)) = length h + 5"
  by (simp add: createTable_def createRow_def createCell_def fillCell_def appendChild_def
      Let_def split_def createElement_length node_append_length set_innerHTML_length upt_rec)


lemma embedData_spec:
  assumes "b \<noteq> []" and "a \<noteq> []"
  shows "(\<forall>x<length h. snd (createTable [[Str a], [Str b]] h) ! x = h ! x)
    \<and> parentNode (snd (createTable [[Str a], [Str b]] h) ! length h) = None
    \<and> (\<forall>t. Node t \<in> set (childNodes (snd (createTable [[Str a], [Str b]] h) ! length h)) \<longrightarrow>
          length h \<le> t
          \<and> (\<forall>c. Node c \<in> set (childNodes (snd (createTable [[Str a], [Str b]] h) ! t)) \<longrightarrow>
                length h \<le> c))
    \<and> tableRows (snd (createTable [[Str a], [Str b]] h)) (length h) =
        Some [[(js ''th'', [Markup a])], [(js ''td'', [Markup b])]]"
proof -
  let ?d = "[[Str a], [Str b]]"
  let ?h2 = "snd (createTable ?d h)"
  have refs: "dataRefs ?d = []" by (simp add: dataRefs_def)
  have spec: "frame {} {} h ?h2" "parentNode (?h2 ! length h) = None"
    "\<forall>t. Node t \<in> set (childNodes (?h2 ! length h)) \<longrightarrow>
          length h \<le> t \<and> (\<forall>c. Node c \<in> set (childNodes (?h2 ! t)) \<longrightarrow> length h \<le> c)"
    "tableRows ?h2 (length h) = Some (tableSpec ?d)"
    using createTable_spec [of ?d h] by (simp_all add: refs)
  have "?h2 ! x = h ! x" if "x < length h" for x
    using spec(1) that by (intro element.equality) (simp_all add: frame_def)
  moreover have "tableSpec ?d = [[(js ''th'', [Markup a])], [(js ''td'', [Markup b])]]"
    using assms by (simp add: tableSpec_def rowSpec_def markup_def upt_rec)
  ultimately show ?thesis using spec(2,3,4) by simp
qed

lemma embedStep_usable:
  assumes url: "embedUrl h f = Some s" and f: "f < length h"
    and par: "parentNode (h ! f) = Some p" and p: "p < length h"
  shows "length (embedStep h f) = length h + 5"
    and "\<And>x. x < length h \<Longrightarrow> tagName (embedStep h f ! x) = tagName (h ! x)
          \<and> attributes (embedStep h f ! x) = attributes (h ! x)"
    and "\<And>x. x < length h \<Longrightarrow>
          parentNode (embedStep h f ! x) = (if x = f then None else parentNode (h ! x))"
    and "parentNode (embedStep h f ! length h) = Some p"
    and "\<And>x. x < length h \<Longrightarrow> childNodes (embedStep h f ! x) =
          (if x = p then map (\<lambda>it. if it = Node f then Node (length h) else it) (childNodes (h ! x))
           else childNodes (h ! x))"
    and "\<forall>t. Node t \<in> set (childNodes (embedStep h f ! length h)) \<longrightarrow>
          length h \<le> t
          \<and> (\<forall>c. Node c \<in> set (childNodes (embedStep h f ! t)) \<longrightarrow> length h \<le> c)"
    and "tableRows (embedStep h f) (length h) = Some (embedRows s)"
proof -
  let ?d = "[[Str (js ''Embed'')], [Str (embedLink s)]]"
  let ?T = "length h"
  let ?h2 = "snd (createTable ?d h)"
  let ?h3 = "replaceWith f ?T ?h2"
  have eq: "embedStep h f = ?h3" by (simp add: embedStep_eq url)
  have ne: "js ''Embed'' \<noteq> []" by (simp add: js_def)
  have l2: "length ?h2 = length h + 5" by (rule embedData_length)
  have old: "\<And>x. x < length h \<Longrightarrow> ?h2 ! x = h ! x"
    and orph: "parentNode (?h2 ! ?T) = None"
    and new: "\<forall>t. Node t \<in> set (childNodes (?h2 ! ?T)) \<longrightarrow>
          ?T \<le> t \<and> (\<forall>c. Node c \<in> set (childNodes (?h2 ! t)) \<longrightarrow> ?T \<le> c)"
    and rows: "tableRows ?h2 ?T =
        Some [[(js ''th'', [Markup (js ''Embed'')])], [(js ''td'', [Markup (embedLink s)])]]"
    using embedData_spec [where b = "embedLink s" and a = "js ''Embed''" and h = h,
        OF embedLink_nonempty ne] by simp_all
  have par2: "parentNode (?h2 ! f) = Some p" using f par by (simp add: old)
  have neq: "?T \<noteq> f" using f by simp
  have rm: "remove_node ?T ?h2 = ?h2" using orph by (rule remove_node_orphan)
  have ch: "childNodes (?h3 ! x) =
      (if p = x \<and> x < length ?h2
       then map (\<lambda>it. if it = Node f then Node ?T else it) (childNodes (?h2 ! x))
       else childNodes (?h2 ! x))" for x
    using replaceWith_childNodes_eq [OF par2 neq, of x] by (simp add: rm)
  have pn: "parentNode (?h3 ! x) =
      (if x = f \<and> f < length ?h2 then None
       else if x = ?T \<and> ?T < length ?h2 then Some p else parentNode (?h2 ! x))" for x
    using par2 neq by (rule replaceWith_parentNode_eq)
  show "length (embedStep h f) = length h + 5"
    by (simp add: eq replaceWith_length l2)
  show "tagName (embedStep h f ! x) = tagName (h ! x)
      \<and> attributes (embedStep h f ! x) = attributes (h ! x)" if "x < length h" for x
  proof -
    have "tagName (?h3 ! x) = tagName (?h2 ! x)" by (rule replaceWith_field) simp_all
    moreover have "attributes (?h3 ! x) = attributes (?h2 ! x)"
      by (rule replaceWith_field) simp_all
    ultimately show ?thesis using that by (simp add: eq old)
  qed
  show "parentNode (embedStep h f ! x) = (if x = f then None else parentNode (h ! x))"
    if "x < length h" for x
    using that f by (simp add: eq pn l2 old)
  show "parentNode (embedStep h f ! length h) = Some p"
    using f by (simp add: eq pn l2)
  show "childNodes (embedStep h f ! x) =
      (if x = p then map (\<lambda>it. if it = Node f then Node (length h) else it) (childNodes (h ! x))
       else childNodes (h ! x))" if "x < length h" for x
    using that by (auto simp add: eq ch l2 old)
  have keep: "childNodes (?h3 ! x) = childNodes (?h2 ! x)" if "?T \<le> x" for x
    using that p by (simp add: ch)
  show "\<forall>t. Node t \<in> set (childNodes (embedStep h f ! length h)) \<longrightarrow>
      length h \<le> t \<and> (\<forall>c. Node c \<in> set (childNodes (embedStep h f ! t)) \<longrightarrow> length h \<le> c)"
    unfolding eq using new by (simp add: keep)
  have same: "\<forall>x<length ?h2. ?T \<le> x \<longrightarrow>
      tagName (?h3 ! x) = tagName (?h2 ! x) \<and> childNodes (?h3 ! x) = childNodes (?h2 ! x)"
  proof (intro allI impI conjI)
    fix x assume "?T \<le> x"
    then show "childNodes (?h3 ! x) = childNodes (?h2 ! x)" by (rule keep)
    show "tagName (?h3 ! x) = tagName (?h2 ! x)" by (rule replaceWith_field) simp_all
  qed
  show "tableRows (embedStep h f) (length h) = Some (embedRows s)"
    unfolding eq embedRows_link using rows _ same _ new
    by (rule tableRows_stable) (simp_all add: replaceWith_length)
qed

lemma embedTables_dom: "(g, t) \<in> set (embedTables h n fs) \<Longrightarrow> g \<in> set fs"
  by (induction fs arbitrary: n) (auto split: option.splits)

lemma embedTables_fst: "fst ` set (embedTables h n fs) \<subseteq> set fs"
  using embedTables_dom by fastforce

lemma embedTables_map_of: "g \<notin> set fs \<Longrightarrow> map_of (embedTables h n fs) g = None"
  using embedTables_fst [of h n fs] by (auto simp add: map_of_eq_None_iff)

lemma embedTables_cong:
  "\<forall>g\<in>set fs. embedUrl h1 g = embedUrl h g \<Longrightarrow> embedTables h1 n fs = embedTables h n fs"
  by (induction fs arbitrary: n) (simp_all split: option.splits)

lemma embedUrl_cong: "attributes (h1 ! g) = attributes (h ! g) \<Longrightarrow> embedUrl h1 g = embedUrl h g"
  by (simp add: embedUrl_def getAttribute_def)

lemma swapItem_id:
  "\<forall>c. map_of T c \<noteq> None \<longrightarrow> parentNode (h ! c) \<noteq> Some x \<Longrightarrow> swapItem h x T it = it"
  by (auto simp add: swapItem_def split: item.splits option.splits)

lemma swapItem_Nil: "map (swapItem h x []) its = its"
  by (rule map_idI) (simp add: swapItem_id)

lemma swapItem_step:
  assumes par: "parentNode (h ! f) = Some p" and f: "f \<notin> set fs"
    and old: "\<forall>g\<in>set fs. g < length h \<and> parentNode (h1 ! g) = parentNode (h ! g)"
  shows "swapItem h1 x (embedTables h n fs)
           (if x = p \<and> it = Node f then Node (length h) else it) =
         swapItem h x ((f, length h) # embedTables h n fs) it"
proof -
  let ?T = "embedTables h n fs"
  have none_f: "map_of ?T f = None" using f by (rule embedTables_map_of)
  have "length h \<notin> set fs" using old by auto
  then have none_T: "map_of ?T (length h) = None" by (rule embedTables_map_of)
  show ?thesis
  proof (cases it)
    case (Node c)
    show ?thesis
    proof (cases "c = f")
      case True
      then show ?thesis using Node par none_f none_T by (simp add: swapItem_def)
    next
      case False
      show ?thesis
      proof (cases "map_of ?T c")
        case None
        then show ?thesis using Node False by (simp add: swapItem_def)
      next
        case (Some t)
        then have "(c, t) \<in> set ?T" by (rule map_of_SomeD)
        then have "c \<in> set fs" by (rule embedTables_dom)
        then have "parentNode (h1 ! c) = parentNode (h ! c)" using old by simp
        then show ?thesis using Node False Some by (simp add: swapItem_def)
      qed
    qed
  qed (simp_all add: swapItem_def)
qed


lemma foldl_embedStep:
  assumes "distinct fs"
    and "\<forall>f\<in>set fs. f < length h \<and> (\<exists>p<length h. parentNode (h ! f) = Some p)"
  shows "length h \<le> length (foldl embedStep h fs)
    \<and> (\<forall>x<length h.
          tagName (foldl embedStep h fs ! x) = tagName (h ! x)
          \<and> attributes (foldl embedStep h fs ! x) = attributes (h ! x)
          \<and> parentNode (foldl embedStep h fs ! x) =
              (if x \<in> fst ` set (embedTables h (length h) fs) then None else parentNode (h ! x))
          \<and> childNodes (foldl embedStep h fs ! x) =
              map (swapItem h x (embedTables h (length h) fs)) (childNodes (h ! x)))
    \<and> (\<forall>g t. (g, t) \<in> set (embedTables h (length h) fs) \<longrightarrow>
          t < length (foldl embedStep h fs)
          \<and> parentNode (foldl embedStep h fs ! t) = parentNode (h ! g)
          \<and> (\<exists>s. embedUrl h g = Some s \<and> tableRows (foldl embedStep h fs) t = Some (embedRows s)))"
  using assms
proof (induction fs arbitrary: h)
  case Nil
  then show ?case by (simp add: swapItem_Nil)
next
  case (Cons f fs)
  from Cons.prems have dist: "distinct fs" and f_new: "f \<notin> set fs" by simp_all
  from Cons.prems obtain p where f: "f < length h" and p: "p < length h"
    and par: "parentNode (h ! f) = Some p" by auto
  from Cons.prems have valid: "\<forall>g\<in>set fs. g < length h \<and> (\<exists>p<length h. parentNode (h ! g) = Some p)"
    by simp
  show ?case
  proof (cases "embedUrl h f")
    case None
    then have "embedStep h f = h" by (simp add: embedStep_eq)
    then show ?thesis using Cons.IH [OF dist valid] None by simp
  next
    case (Some s)
    let ?h1 = "embedStep h f"
    let ?h' = "foldl embedStep ?h1 fs"
    let ?T' = "embedTables h (length h + 5) fs"
    note step = embedStep_usable [OF Some f par p]
    have l1: "length ?h1 = length h + 5" by (rule step(1))
    have old: "\<forall>g\<in>set fs. g < length h \<and> parentNode (?h1 ! g) = parentNode (h ! g)"
      using valid f_new by (auto simp add: step(3))
    have valid1: "\<forall>g\<in>set fs. g < length ?h1 \<and> (\<exists>p<length ?h1. parentNode (?h1 ! g) = Some p)"
    proof
      fix g assume g: "g \<in> set fs"
      with valid obtain q where "g < length h" "q < length h" "parentNode (h ! g) = Some q"
        by auto
      moreover have "parentNode (?h1 ! g) = parentNode (h ! g)" using old g by simp
      ultimately show "g < length ?h1 \<and> (\<exists>p<length ?h1. parentNode (?h1 ! g) = Some p)"
        by (auto simp add: l1)
    qed
    have url: "embedUrl ?h1 g = embedUrl h g" if "g \<in> set fs" for g
      using valid that by (intro embedUrl_cong) (simp add: step(2))
    have T1: "embedTables ?h1 (length ?h1) fs = ?T'"
      unfolding l1 by (rule embedTables_cong) (simp add: url)
    have T: "embedTables h (length h) (f # fs) = (f, length h) # ?T'"
      by (simp add: Some)
    note ih = Cons.IH [OF dist valid1, unfolded T1]
    from ih have ih1: "length ?h1 \<le> length ?h'" by blast
    from ih have ih2: "\<And>x. x < length ?h1 \<Longrightarrow>
          tagName (?h' ! x) = tagName (?h1 ! x)
          \<and> attributes (?h' ! x) = attributes (?h1 ! x)
          \<and> parentNode (?h' ! x) = (if x \<in> fst ` set ?T' then None else parentNode (?h1 ! x))
          \<and> childNodes (?h' ! x) = map (swapItem ?h1 x ?T') (childNodes (?h1 ! x))"
      by blast
    from ih have ih3: "\<And>g t. (g, t) \<in> set ?T' \<Longrightarrow>
          t < length ?h' \<and> parentNode (?h' ! t) = parentNode (?h1 ! g)
          \<and> (\<exists>s. embedUrl ?h1 g = Some s \<and> tableRows ?h' t = Some (embedRows s))"
      by blast
    have dom: "g \<in> set fs" if "(g, t) \<in> set ?T'" for g t
      using that by (rule embedTables_dom)
    have dom_lt: "x < length h" if "x \<in> fst ` set ?T'" for x
      using that valid embedTables_fst [of h "length h + 5" fs] by auto
    have c1: "length h \<le> length ?h'" using ih1 l1 by simp
    have c2: "tagName (?h' ! x) = tagName (h ! x)
          \<and> attributes (?h' ! x) = attributes (h ! x)
          \<and> parentNode (?h' ! x) =
              (if x \<in> fst ` set ((f, length h) # ?T') then None else parentNode (h ! x))
          \<and> childNodes (?h' ! x) =
              map (swapItem h x ((f, length h) # ?T')) (childNodes (h ! x))"
      if x: "x < length h" for x
    proof -
      have x1: "x < length ?h1" using x l1 by simp
      have "childNodes (?h' ! x) = map (swapItem ?h1 x ?T') (childNodes (?h1 ! x))"
        using ih2 [OF x1] by simp
      also have "childNodes (?h1 ! x) =
          map (\<lambda>it. if x = p \<and> it = Node f then Node (length h) else it) (childNodes (h ! x))"
        by (simp add: step(5) [OF x])
      also have "map (swapItem ?h1 x ?T')
          (map (\<lambda>it. if x = p \<and> it = Node f then Node (length h) else it) (childNodes (h ! x))) =
          map (swapItem h x ((f, length h) # ?T')) (childNodes (h ! x))"
        by (simp add: swapItem_step [OF par f_new old])
      finally have ch: "childNodes (?h' ! x) =
          map (swapItem h x ((f, length h) # ?T')) (childNodes (h ! x))" .
      have "parentNode (?h' ! x) =
          (if x \<in> fst ` set ?T' then None else parentNode (?h1 ! x))"
        using ih2 [OF x1] by blast
      also have "parentNode (?h1 ! x) = (if x = f then None else parentNode (h ! x))"
        by (rule step(3) [OF x])
      finally have pn: "parentNode (?h' ! x) =
          (if x \<in> fst ` set ((f, length h) # ?T') then None else parentNode (h ! x))"
        by auto
      show ?thesis using ih2 [OF x1] step(2) [OF x] ch pn by simp
    qed
    have c3: "t < length ?h' \<and> parentNode (?h' ! t) = parentNode (h ! g)
          \<and> (\<exists>s. embedUrl h g = Some s \<and> tableRows ?h' t = Some (embedRows s))"
      if gt: "(g, t) \<in> set ((f, length h) # ?T')" for g t
    proof (cases "(g, t) = (f, length h)")
      case True
      have t1: "length h < length ?h1" by (simp add: l1)
      have notin: "length h \<notin> fst ` set ?T'" using dom_lt by blast
      have pn: "parentNode (?h' ! length h) = Some p"
        using ih2 [OF t1] notin step(4) by simp
      have same: "\<forall>x<length ?h1. length h \<le> x \<longrightarrow>
          tagName (?h' ! x) = tagName (?h1 ! x) \<and> childNodes (?h' ! x) = childNodes (?h1 ! x)"
      proof (intro allI impI)
        fix x assume x1: "x < length ?h1" and x: "length h \<le> x"
        have "parentNode (?h1 ! c) \<noteq> Some x" if "map_of ?T' c \<noteq> None" for c
        proof -
          from that obtain t where "(c, t) \<in> set ?T'" by (auto dest: map_of_SomeD)
          then have c: "c \<in> set fs" by (rule dom)
          with valid obtain q where "q < length h" "parentNode (h ! c) = Some q" by auto
          moreover have "parentNode (?h1 ! c) = parentNode (h ! c)" using old c by simp
          ultimately show ?thesis using x by simp
        qed
        then have "map (swapItem ?h1 x ?T') (childNodes (?h1 ! x)) = childNodes (?h1 ! x)"
          by (simp add: swapItem_id map_idI)
        then show "tagName (?h' ! x) = tagName (?h1 ! x)
            \<and> childNodes (?h' ! x) = childNodes (?h1 ! x)"
          using ih2 [OF x1] by simp
      qed
      have "tableRows ?h' (length h) = Some (embedRows s)"
        using step(7) ih1 same le_refl step(6) by (rule tableRows_stable)
      then show ?thesis using True pn par Some t1 ih1 by simp
    next
      case False
      with gt have in_T: "(g, t) \<in> set ?T'" by auto
      then have g: "g \<in> set fs" by (rule dom)
      have "parentNode (?h1 ! g) = parentNode (h ! g)" using old g by simp
      then show ?thesis using ih3 [OF in_T] url [OF g] by simp
    qed
    have fold: "foldl embedStep h (f # fs) = ?h'" by simp
    show ?thesis unfolding fold T using c1 c2 c3 by blast
  qed
qed

lemma embedTables_lower: "(g, t) \<in> set (embedTables h n fs) \<Longrightarrow> n \<le> t"
proof (induction fs arbitrary: n)
  case Nil
  then show ?case by simp
next
  case (Cons f fs)
  show ?case
  proof (cases "embedUrl h f")
    case None
    with Cons.prems have "(g, t) \<in> set (embedTables h n fs)" by simp
    then show ?thesis by (rule Cons.IH)
  next
    case (Some s)
    with Cons.prems have "t = n \<or> (g, t) \<in> set (embedTables h (n + 5) fs)" by auto
    then show ?thesis using Cons.IH [of "n + 5"] by auto
  qed
qed

lemma embedTables_usable:
  "f \<in> set fs \<Longrightarrow> embedUrl h f = Some s \<Longrightarrow> \<exists>t. map_of (embedTables h n fs) f = Some t"
  by (induction fs arbitrary: n) (auto split: option.splits)

lemma embedTables_unusable: "embedUrl h f = None \<Longrightarrow> map_of (embedTables h n fs) f = None"
  by (induction fs arbitrary: n) (auto split: option.splits)

lemma swapItem_not_replaced:
  assumes "map_of T f = Some t" and "parentNode (h ! f) = Some p"
    and "\<forall>c t. map_of T c = Some t \<longrightarrow> t \<noteq> f"
  shows "swapItem h p T it \<noteq> Node f"
  using assms by (auto simp add: swapItem_def split: item.splits option.splits if_splits)


text \<open>
  Claim C6. Let \<open>iframes\<close> be the answer of the main region to the selector \<open>iframe\<close>:
  nodes of the store, each once, each with a parent in the store. An iframe whose \<open>src\<close>
  attribute is absent or empty keeps its tag, its attributes, its parent and its place
  among the children of the parent. An iframe with any other \<open>src\<close> leaves its parent;
  in each place where the parent held it, the parent holds a new table, whose rows read
  back as the header \<open>Embed\<close> and one data row of one cell with the markup
  \<open><a href="url">url</a>\<close>, where \<open>url\<close> is the \<open>src\<close>, with \<open>https:\<close> before it when
  its first two units are \<open>//\<close> (the cell receives this markup as its \<open>innerHTML\<close>; how
  the HTML parser reads it is outside the store). The parent has as many children as
  before. In the statement \<open>0x22\<close> is the double quote and \<open>0x3E\<close> the closing angle
  bracket.
\<close>

theorem createEmbeds_replaces_iframes:
  assumes q: "querySelectorAll Q h main (js ''iframe'') = iframes"
    and dist: "distinct iframes"
    and valid: "\<forall>f\<in>set iframes. f < length h \<and> (\<exists>p<length h. parentNode (h ! f) = Some p)"
    and f: "f \<in> set iframes" and par: "parentNode (h ! f) = Some p"
  shows "length (childNodes (createEmbeds Q main h ! p)) = length (childNodes (h ! p))
    \<and> (getAttribute h f (js ''src'') = None \<or> getAttribute h f (js ''src'') = Some [] \<longrightarrow>
       tagName (createEmbeds Q main h ! f) = tagName (h ! f)
       \<and> attributes (createEmbeds Q main h ! f) = attributes (h ! f)
       \<and> parentNode (createEmbeds Q main h ! f) = Some p
       \<and> (\<forall>i<length (childNodes (h ! p)). childNodes (h ! p) ! i = Node f \<longrightarrow>
             childNodes (createEmbeds Q main h ! p) ! i = Node f))
    \<and> (\<forall>src url. getAttribute h f (js ''src'') = Some src \<and> src \<noteq> []
           \<and> url = (if take 2 src = js ''//'' then js ''https:'' @ src else src) \<longrightarrow>
         (\<exists>t. map_of (embedTables h (length h) iframes) f = Some t
            \<and> length h \<le> t
            \<and> parentNode (createEmbeds Q main h ! t) = Some p
            \<and> parentNode (createEmbeds Q main h ! f) = None
            \<and> Node f \<notin> set (childNodes (createEmbeds Q main h ! p))
            \<and> (\<forall>i<length (childNodes (h ! p)). childNodes (h ! p) ! i = Node f \<longrightarrow>
                  childNodes (createEmbeds Q main h ! p) ! i = Node t)
            \<and> tableRows (createEmbeds Q main h) t =
                Some [[(js ''th'', [Markup (js ''Embed'')])],
                      [(js ''td'',
                        [Markup (js ''<a href='' @ [0x22] @ url @ [0x22, 0x3E] @ url
                                   @ js ''</a>'')])]]))"
proof -
  let ?h' = "foldl embedStep h iframes"
  let ?T = "embedTables h (length h) iframes"
  have eq: "createEmbeds Q main h = ?h'" by (simp add: createEmbeds_def q)
  note loop = foldl_embedStep [OF dist valid]
  from valid f par have fl: "f < length h" and pl: "p < length h" by auto
  from loop fl have tag: "tagName (?h' ! f) = tagName (h ! f)"
    and att: "attributes (?h' ! f) = attributes (h ! f)"
    and pn: "parentNode (?h' ! f) = (if f \<in> fst ` set ?T then None else parentNode (h ! f))"
    by blast+
  from loop pl have ch: "childNodes (?h' ! p) = map (swapItem h p ?T) (childNodes (h ! p))"
    by blast
  from loop have tabs: "\<And>g t. (g, t) \<in> set ?T \<Longrightarrow>
      parentNode (?h' ! t) = parentNode (h ! g)
      \<and> (\<exists>s. embedUrl h g = Some s \<and> tableRows ?h' t = Some (embedRows s))"
    by blast
  have c1: "length (childNodes (?h' ! p)) = length (childNodes (h ! p))"
    by (simp add: ch)
  have c2: "tagName (?h' ! f) = tagName (h ! f)
       \<and> attributes (?h' ! f) = attributes (h ! f)
       \<and> parentNode (?h' ! f) = Some p
       \<and> (\<forall>i<length (childNodes (h ! p)). childNodes (h ! p) ! i = Node f \<longrightarrow>
             childNodes (?h' ! p) ! i = Node f)"
    if "getAttribute h f (js ''src'') = None \<or> getAttribute h f (js ''src'') = Some []"
  proof -
    from that have "embedUrl h f = None" by (auto simp add: embedUrl_def)
    then have none: "map_of ?T f = None" by (rule embedTables_unusable)
    then have "f \<notin> fst ` set ?T" by (simp add: map_of_eq_None_iff)
    then have "parentNode (?h' ! f) = Some p" using pn par by simp
    moreover have "swapItem h p ?T (Node f) = Node f" using none by (simp add: swapItem_def)
    then have "\<forall>i<length (childNodes (h ! p)). childNodes (h ! p) ! i = Node f \<longrightarrow>
        childNodes (?h' ! p) ! i = Node f"
      by (simp add: ch)
    ultimately show ?thesis using tag att by simp
  qed
  have c3: "\<exists>t. map_of ?T f = Some t
            \<and> length h \<le> t
            \<and> parentNode (?h' ! t) = Some p
            \<and> parentNode (?h' ! f) = None
            \<and> Node f \<notin> set (childNodes (?h' ! p))
            \<and> (\<forall>i<length (childNodes (h ! p)). childNodes (h ! p) ! i = Node f \<longrightarrow>
                  childNodes (?h' ! p) ! i = Node t)
            \<and> tableRows ?h' t =
                Some [[(js ''th'', [Markup (js ''Embed'')])],
                      [(js ''td'',
                        [Markup (js ''<a href='' @ [0x22] @ url @ [0x22, 0x3E] @ url
                                   @ js ''</a>'')])]]"
    if "getAttribute h f (js ''src'') = Some src \<and> src \<noteq> []
           \<and> url = (if take 2 src = js ''//'' then js ''https:'' @ src else src)"
    for src url
  proof -
    from that have url: "embedUrl h f = Some url" by (simp add: embedUrl_def)
    with f obtain t where t: "map_of ?T f = Some t" using embedTables_usable by blast
    then have in_T: "(f, t) \<in> set ?T" by (rule map_of_SomeD)
    then have lower: "length h \<le> t" by (rule embedTables_lower)
    have "f \<in> fst ` set ?T" using in_T by force
    then have p1: "parentNode (?h' ! f) = None" using pn by simp
    from tabs [OF in_T] url
    have p2: "parentNode (?h' ! t) = Some p" and rows: "tableRows ?h' t = Some (embedRows url)"
      using par by auto
    have "\<forall>c t. map_of ?T c = Some t \<longrightarrow> t \<noteq> f"
    proof (intro allI impI)
      fix c u assume "map_of ?T c = Some u"
      then have "(c, u) \<in> set ?T" by (rule map_of_SomeD)
      then have "length h \<le> u" by (rule embedTables_lower)
      then show "u \<noteq> f" using fl by simp
    qed
    with t par have nr: "swapItem h p ?T it \<noteq> Node f" for it
      by (rule swapItem_not_replaced)
    have gone: "Node f \<notin> set (childNodes (?h' ! p))"
    proof
      assume "Node f \<in> set (childNodes (?h' ! p))"
      then have "Node f \<in> swapItem h p ?T ` set (childNodes (h ! p))" by (simp add: ch)
      then obtain it where "Node f = swapItem h p ?T it" by (rule imageE)
      with nr [of it] show False by simp
    qed
    have "swapItem h p ?T (Node f) = Node t" using t par by (simp add: swapItem_def)
    then have pos: "\<forall>i<length (childNodes (h ! p)). childNodes (h ! p) ! i = Node f \<longrightarrow>
        childNodes (?h' ! p) ! i = Node t"
      by (simp add: ch)
    show ?thesis using t lower p1 p2 gone pos rows by (simp add: embedRows_def)
  qed
  show ?thesis unfolding eq using c1 c2 c3 by blast
qed

theorem createEmbeds_replaces_iframes_witness:
  "childNodes (createEmbeds embed_dom 0 embed_page ! 0) ! 0 = Node 5
   \<and> parentNode (createEmbeds embed_dom 0 embed_page ! 5) = Some 0
   \<and> parentNode (createEmbeds embed_dom 0 embed_page ! 1) = None
   \<and> tableRows (createEmbeds embed_dom 0 embed_page) 5 =
       Some [[(js ''th'', [Markup (js ''Embed'')])],
             [(js ''td'', [Markup (js ''<a href='' @ [0x22] @ js ''https://example.com/v''
                                     @ [0x22] @ js ''>https://example.com/v</a>'')])]]
   \<and> childNodes (createEmbeds embed_dom 0 embed_page ! 0) ! 2 = Node 2
   \<and> parentNode (createEmbeds embed_dom 0 embed_page ! 2) = Some 0
   \<and> childNodes (createEmbeds embed_dom 0 embed_page ! 0) ! 3 = Node 3
   \<and> parentNode (createEmbeds embed_dom 0 embed_page ! 3) = Some 0
   \<and> childNodes (createEmbeds embed_dom 0 embed_page ! 0) ! 4 = Node 10
   \<and> tableRows (createEmbeds embed_dom 0 embed_page) 10 =
       Some [[(js ''th'', [Markup (js ''Embed'')])],
             [(js ''td'', [Markup (js ''<a href='' @ [0x22] @ js ''http://e.org/w''
                                     @ [0x22] @ js ''>http://e.org/w</a>'')])]]
   \<and> length (childNodes (createEmbeds embed_dom 0 embed_page ! 0)) = 5"
proof -
  let ?h' = "createEmbeds embed_dom 0 embed_page"
  have len: "length embed_page = 5" by (simp add: embed_page_def)
  have q: "querySelectorAll embed_dom embed_page 0 (js ''iframe'') = [1, 2, 3, 4]"
    by (simp add: embed_dom_def)
  have d: "distinct [1, 2, 3, 4 :: nat]" by simp
  have v: "\<forall>f\<in>set [1, 2, 3, 4].
      f < length embed_page \<and> (\<exists>p<length embed_page. parentNode (embed_page ! f) = Some p)"
    by (simp add: embed_page_def)
  have par: "parentNode (embed_page ! 1) = Some 0" "parentNode (embed_page ! 2) = Some 0"
    "parentNode (embed_page ! 3) = Some 0" "parentNode (embed_page ! 4) = Some 0"
    by (simp_all add: embed_page_def)
  have kids: "childNodes (embed_page ! 0) = [Node 1, Text (js ''x''), Node 2, Node 3, Node 4]"
    by (simp add: embed_page_def)
  have src: "getAttribute embed_page 1 (js ''src'') = Some (js ''//example.com/v'')"
    "getAttribute embed_page 2 (js ''src'') = None"
    "getAttribute embed_page 3 (js ''src'') = Some []"
    "getAttribute embed_page 4 (js ''src'') = Some (js ''http://e.org/w'')"
    by (simp_all add: getAttribute_def embed_page_def js_def)
  have u1: "(if take 2 (js ''//example.com/v'') = js ''//''
      then js ''https:'' @ js ''//example.com/v'' else js ''//example.com/v'') =
      js ''https://example.com/v''"
    and u4: "(if take 2 (js ''http://e.org/w'') = js ''//''
      then js ''https:'' @ js ''http://e.org/w'' else js ''http://e.org/w'') =
      js ''http://e.org/w''"
    and ne: "js ''//example.com/v'' \<noteq> []" "js ''http://e.org/w'' \<noteq> []"
    by (simp_all add: js_def)
  have url: "embedUrl embed_page 1 = Some (js ''https://example.com/v'')"
    "embedUrl embed_page 2 = None" "embedUrl embed_page 3 = None"
    "embedUrl embed_page 4 = Some (js ''http://e.org/w'')"
    using src(1,4) u1 u4 ne src(2,3) unfolding embedUrl_def by simp_all
  have T: "embedTables embed_page 5 [1, 2, 3, 4] = [(1, 5), (4, 10)]"
    using url by simp
  have i1: "1 \<in> set [1, 2, 3, 4 :: nat]" and i2: "2 \<in> set [1, 2, 3, 4 :: nat]"
    and i3: "3 \<in> set [1, 2, 3, 4 :: nat]" and i4: "4 \<in> set [1, 2, 3, 4 :: nat]"
    by simp_all
  note A = createEmbeds_replaces_iframes [OF q d v i1 par(1), unfolded len T kids]
  note B = createEmbeds_replaces_iframes [OF q d v i2 par(2), unfolded len T kids]
  note C = createEmbeds_replaces_iframes [OF q d v i3 par(3), unfolded len T kids]
  note D = createEmbeds_replaces_iframes [OF q d v i4 par(4), unfolded len T kids]
  from A have l: "length (childNodes (?h' ! 0)) = 5" by simp
  from A src(1) ne(1) u1 have "childNodes (?h' ! 0) ! 0 = Node 5
      \<and> parentNode (?h' ! 5) = Some 0 \<and> parentNode (?h' ! 1) = None
      \<and> tableRows ?h' 5 = Some [[(js ''th'', [Markup (js ''Embed'')])],
             [(js ''td'', [Markup (js ''<a href='' @ [0x22] @ js ''https://example.com/v''
                                     @ [0x22, 0x3E] @ js ''https://example.com/v''
                                     @ js ''</a>'')])]]"
    by auto
  then have a: "childNodes (?h' ! 0) ! 0 = Node 5
      \<and> parentNode (?h' ! 5) = Some 0 \<and> parentNode (?h' ! 1) = None
      \<and> tableRows ?h' 5 = Some [[(js ''th'', [Markup (js ''Embed'')])],
             [(js ''td'', [Markup (js ''<a href='' @ [0x22] @ js ''https://example.com/v''
                                     @ [0x22] @ js ''>https://example.com/v</a>'')])]]"
    by (simp add: js_def)
  from B src(2) have b: "childNodes (?h' ! 0) ! 2 = Node 2 \<and> parentNode (?h' ! 2) = Some 0"
    by auto
  from C src(3) have c: "childNodes (?h' ! 0) ! 3 = Node 3 \<and> parentNode (?h' ! 3) = Some 0"
    by auto
  from D src(4) ne(2) u4 have "childNodes (?h' ! 0) ! 4 = Node 10
      \<and> tableRows ?h' 10 = Some [[(js ''th'', [Markup (js ''Embed'')])],
             [(js ''td'', [Markup (js ''<a href='' @ [0x22] @ js ''http://e.org/w''
                                     @ [0x22, 0x3E] @ js ''http://e.org/w'' @ js ''</a>'')])]]"
    by auto
  then have d: "childNodes (?h' ! 0) ! 4 = Node 10
      \<and> tableRows ?h' 10 = Some [[(js ''th'', [Markup (js ''Embed'')])],
             [(js ''td'', [Markup (js ''<a href='' @ [0x22] @ js ''http://e.org/w''
                                     @ [0x22] @ js ''>http://e.org/w</a>'')])]]"
    by (simp add: js_def)
  from l a b c d show ?thesis by blast
qed


end
